theory Spec2Isabelle
  imports Main "HOL-Library.Sublist"
begin

section \<open>Go strings: bytes, runes and the \<^verbatim>\<open>strings\<close> package\<close>

text \<open>
  A Go string is a sequence of bytes; \<open>string\<close> is the list of its bytes. The \<^verbatim>\<open>regexp\<close>
  and \<^verbatim>\<open>strings\<close> packages read it as UTF-8, one rune at a time.
\<close>

definition byte :: "char \<Rightarrow> nat" where
  "byte c = of_char c"

definition cont :: "char \<Rightarrow> bool" where
  "cont c = (0x80 \<le> byte c \<and> byte c \<le> 0xBF)"

text \<open>
  The width that \<^verbatim>\<open>utf8.DecodeRuneInString\<close> reports for the first rune of a string: one
  byte for ASCII and for every byte that does not start a well-formed encoding, otherwise
  the two, three or four bytes of the encoding (the second byte of an encoding has a
  narrower range after \<^verbatim>\<open>E0\<close>, \<^verbatim>\<open>ED\<close>, \<^verbatim>\<open>F0\<close> and \<^verbatim>\<open>F4\<close>).
\<close>

fun rune_width :: "string \<Rightarrow> nat" where
  "rune_width [] = 0"
| "rune_width (b0 # s) =
     (let x = byte b0 in
      if x < 0xC2 then 1
      else if x \<le> 0xDF then
        (case s of b1 # _ \<Rightarrow> if cont b1 then 2 else 1 | _ \<Rightarrow> 1)
      else if x \<le> 0xEF then
        (case s of b1 # b2 # _ \<Rightarrow>
           if (if x = 0xE0 then 0xA0 else 0x80) \<le> byte b1 \<and>
              byte b1 \<le> (if x = 0xED then 0x9F else 0xBF) \<and> cont b2 then 3 else 1
         | _ \<Rightarrow> 1)
      else if x \<le> 0xF4 then
        (case s of b1 # b2 # b3 # _ \<Rightarrow>
           if (if x = 0xF0 then 0x90 else 0x80) \<le> byte b1 \<and>
              byte b1 \<le> (if x = 0xF4 then 0x8F else 0xBF) \<and> cont b2 \<and> cont b3 then 4 else 1
         | _ \<Rightarrow> 1)
      else 1)"

text \<open>
  The runes for which \<^verbatim>\<open>unicode.IsSpace\<close> holds, as their UTF-8 encodings: tab, line feed,
  vertical tab, form feed, carriage return, space, U+0085, U+00A0, U+1680, U+2000 to
  U+200A, U+2028, U+2029, U+202F, U+205F and U+3000 (the table of Unicode 6.3 and later).
\<close>

definition unicode_spaces :: "string list" where
  "unicode_spaces =
     [[CHR 0x09], [CHR 0x0A], [CHR 0x0B], [CHR 0x0C], [CHR 0x0D], [CHR 0x20],
      [CHR 0xC2, CHR 0x85], [CHR 0xC2, CHR 0xA0],
      [CHR 0xE1, CHR 0x9A, CHR 0x80],
      [CHR 0xE2, CHR 0x80, CHR 0x80], [CHR 0xE2, CHR 0x80, CHR 0x81],
      [CHR 0xE2, CHR 0x80, CHR 0x82], [CHR 0xE2, CHR 0x80, CHR 0x83],
      [CHR 0xE2, CHR 0x80, CHR 0x84], [CHR 0xE2, CHR 0x80, CHR 0x85],
      [CHR 0xE2, CHR 0x80, CHR 0x86], [CHR 0xE2, CHR 0x80, CHR 0x87],
      [CHR 0xE2, CHR 0x80, CHR 0x88], [CHR 0xE2, CHR 0x80, CHR 0x89],
      [CHR 0xE2, CHR 0x80, CHR 0x8A],
      [CHR 0xE2, CHR 0x80, CHR 0xA8], [CHR 0xE2, CHR 0x80, CHR 0xA9],
      [CHR 0xE2, CHR 0x80, CHR 0xAF],
      [CHR 0xE2, CHR 0x81, CHR 0x9F],
      [CHR 0xE3, CHR 0x80, CHR 0x80]]"

text \<open>
  \<^verbatim>\<open>strings.TrimSpace\<close>: the runes of white space are removed from the front, decoding
  forwards, and then from the back, decoding backwards (\<^verbatim>\<open>utf8.DecodeLastRuneInString\<close>
  finds a white-space rune at the end exactly when the string ends in its encoding).
  \<open>trim_front\<close> is used on the string and, with the encodings reversed, on its reverse.
\<close>

fun trim_front :: "string list \<Rightarrow> string \<Rightarrow> string" where
  "trim_front spaces [] = []"
| "trim_front spaces (b # s) =
     (case List.find (\<lambda>w. prefix w (b # s)) spaces of
        None \<Rightarrow> b # s
      | Some w \<Rightarrow> trim_front spaces (drop (length w - 1) s))"

definition TrimLeft :: "string \<Rightarrow> string" where
  "TrimLeft s = trim_front unicode_spaces s"

definition TrimRight :: "string \<Rightarrow> string" where
  "TrimRight s = rev (trim_front (map rev unicode_spaces) (rev s))"

definition TrimSpace :: "string \<Rightarrow> string" where
  "TrimSpace s = TrimRight (TrimLeft s)"

text \<open>
  \<^verbatim>\<open>strings.Split(line, ":")\<close> for a one-character separator: the pieces between the
  separators, one more piece than there are separators.
\<close>

fun Split :: "string \<Rightarrow> char \<Rightarrow> string list" where
  "Split [] sep = [[]]"
| "Split (c # s) sep =
     (if c = sep then [] # Split s sep
      else (case Split s sep of [] \<Rightarrow> [[c]] | p # ps \<Rightarrow> (c # p) # ps))"

section \<open>The regular expressions of the program (Go \<^verbatim>\<open>regexp\<close>)\<close>

text \<open>
  A character class \<^verbatim>\<open>[...]\<close> is a list of ranges, negated (\<^verbatim>\<open>[^...]\<close>) or not. Every
  class of the program ranges over ASCII characters only, so a rune outside ASCII belongs
  to a class exactly when the class is negated. \<open>cls_step\<close> is the number of bytes of the
  first rune when that rune is in the class, and 0 when it is not.
\<close>

datatype cls = Class bool "(char \<times> char) list"

fun in_ranges :: "(char \<times> char) list \<Rightarrow> char \<Rightarrow> bool" where
  "in_ranges [] c = False"
| "in_ranges ((lo, hi) # rs) c = ((byte lo \<le> byte c \<and> byte c \<le> byte hi) \<or> in_ranges rs c)"

fun cls_step :: "cls \<Rightarrow> string \<Rightarrow> nat" where
  "cls_step k [] = 0"
| "cls_step (Class negated rs) (b # s) =
     (if byte b < 0x80 then (if in_ranges rs b \<noteq> negated then 1 else 0)
      else if negated then rune_width (b # s) else 0)"

text \<open>
  The syntax the program's patterns use: a literal, one character of a class, a class
  under \<^verbatim>\<open>+\<close> or \<^verbatim>\<open>*\<close>, \<^verbatim>\<open>r?\<close>, concatenation, \<^verbatim>\<open>r1|r2\<close>, and a capturing
  group with its number (groups are numbered by their opening parenthesis). A
  non-capturing group \<^verbatim>\<open>(?:r)\<close> is \<open>r\<close> itself. All repetitions are greedy.
\<close>

datatype rx = Lit string | One cls | Plus cls | Star cls | Opt rx | Seq rx rx | Alt rx rx
  | Group nat rx

fun cat :: "rx list \<Rightarrow> rx" where
  "cat [] = Lit []"
| "cat [r] = r"
| "cat (r # rs) = Seq r (cat rs)"

text \<open>
  Go's \<^verbatim>\<open>regexp\<close> finds the match a backtracking search finds first (leftmost-first, as
  Perl). \<open>rmatch r s c\<close> lists every way \<open>r\<close> matches a prefix of \<open>s\<close>, in the order in
  which backtracking tries them: what is left of \<open>s\<close>, and the captures \<open>c\<close> with the
  groups of \<open>r\<close> set. The head of the list is the preferred match.
\<close>

fun star_rests :: "cls \<Rightarrow> string \<Rightarrow> string list" where
  "star_rests k [] = [[]]"
| "star_rests k (b # s) =
     (let n = cls_step k (b # s) in
      if n = 0 then [b # s] else star_rests k (drop (n - 1) s) @ [b # s])"

definition plus_rests :: "cls \<Rightarrow> string \<Rightarrow> string list" where
  "plus_rests k s = (let n = cls_step k s in if n = 0 then [] else star_rests k (drop n s))"

fun rmatch :: "rx \<Rightarrow> string \<Rightarrow> string list \<Rightarrow> (string \<times> string list) list" where
  "rmatch (Lit w) s c = (if prefix w s then [(drop (length w) s, c)] else [])"
| "rmatch (One k) s c = (let n = cls_step k s in if n = 0 then [] else [(drop n s, c)])"
| "rmatch (Plus k) s c = map (\<lambda>rest. (rest, c)) (plus_rests k s)"
| "rmatch (Star k) s c = map (\<lambda>rest. (rest, c)) (star_rests k s)"
| "rmatch (Opt r) s c = rmatch r s c @ [(s, c)]"
| "rmatch (Seq r1 r2) s c = concat (map (\<lambda>(s1, c1). rmatch r2 s1 c1) (rmatch r1 s c))"
| "rmatch (Alt r1 r2) s c = rmatch r1 s c @ rmatch r2 s c"
| "rmatch (Group i r) s c =
     map (\<lambda>(s1, c1). (s1, c1[i := take (length s - length s1) s])) (rmatch r s c)"

text \<open>\<^verbatim>\<open>re.NumSubexp()\<close>: the number of capturing groups.\<close>

fun NumSubexp :: "rx \<Rightarrow> nat" where
  "NumSubexp (Opt r) = NumSubexp r"
| "NumSubexp (Seq r1 r2) = NumSubexp r1 + NumSubexp r2"
| "NumSubexp (Alt r1 r2) = NumSubexp r1 + NumSubexp r2"
| "NumSubexp (Group i r) = Suc (NumSubexp r)"
| "NumSubexp r = 0"

text \<open>
  The unanchored search: the match is tried at the start of the text and then after each
  rune in turn, and the first position that matches wins. The result is the list
  \<^verbatim>\<open>[match, group 1, ..., group n]\<close>, an unset group being the empty string, or the
  nil slice (the empty list) when no position matches.
\<close>

fun search :: "rx \<Rightarrow> string list \<Rightarrow> string \<Rightarrow> string list" where
  "search re c0 [] =
     (case rmatch re [] c0 of [] \<Rightarrow> [] | (rest, c) # _ \<Rightarrow> c[0 := []])"
| "search re c0 (b # s) =
     (case rmatch re (b # s) c0 of
        [] \<Rightarrow> search re c0 (drop (rune_width (b # s) - 1) s)
      | (rest, c) # _ \<Rightarrow> c[0 := take (length (b # s) - length rest) (b # s)])"

definition FindStringSubmatch :: "rx \<Rightarrow> string \<Rightarrow> string list" where
  "FindStringSubmatch re s = search re (replicate (Suc (NumSubexp re)) []) s"

definition MatchString :: "rx \<Rightarrow> string \<Rightarrow> bool" where
  "MatchString re s = (FindStringSubmatch re s \<noteq> [])"

section \<open>Remote archives (util/util.go)\<close>

text \<open>
  The errors the package returns: those it passes on from \<^verbatim>\<open>http.Get\<close>,
  \<^verbatim>\<open>gzip.NewReader\<close>, \<^verbatim>\<open>ioutil.ReadAll\<close>, \<^verbatim>\<open>zip.NewReader\<close> and \<^verbatim>\<open>file.Open\<close>, each with
  the library's message, and the two it builds itself with \<^verbatim>\<open>fmt.Errorf\<close>.
\<close>

text \<open>
  A compiled pattern, \<^verbatim>\<open>*regexp.Regexp\<close>, as this package uses it: the text it prints as,
  and the answer of \<^verbatim>\<open>pattern.MatchString\<close> for every string. The package receives its
  patterns from its callers, so they are not restricted to the patterns of this program.
\<close>

datatype regexp = Regexp string "string \<Rightarrow> bool"

fun matches :: "regexp \<Rightarrow> string \<Rightarrow> bool" where
  "matches (Regexp source accepts) name = accepts name"

datatype error =
    HttpGetError string
  | GzipError string
  | ReadAllError string
  | ZipReaderError string
  | FileOpenError string
  | NoFileMatchedPattern regexp
  | UnrecognizedCompressionType string

text \<open>
  A call returns its results, or it panics: dereferencing a nil pointer and asking
  \<^verbatim>\<open>make\<close> for a capacity that is out of range are run-time panics that nothing in the
  program recovers.
\<close>

datatype 'a outcome = Returns 'a | Panics

text \<open>
  What the loop of \<^verbatim>\<open>remoteUntar\<close> can observe of a tar reader: the entries whose header
  \<^verbatim>\<open>tr.Next()\<close> reads successfully, each with the fields \<^verbatim>\<open>Name\<close> and \<^verbatim>\<open>Size\<close> of its
  header (\<^verbatim>\<open>Size\<close> is an \<^verbatim>\<open>int64\<close>) and the bytes that \<^verbatim>\<open>io.Copy(buf, tr)\<close> transfers from
  it, and how the sequence ends: with \<^verbatim>\<open>io.EOF\<close>, or with some other error, for which
  \<^verbatim>\<open>Next\<close> returns a nil header. A read error inside an entry is kept by the reader and
  returned by the following \<^verbatim>\<open>Next\<close>, so in a sequence that ends with \<^verbatim>\<open>io.EOF\<close> the bytes
  of every entry are its full contents.
\<close>

datatype tar_entry = TarEntry (hdr_Name: string) (hdr_Size: int) (entry_bytes: string)

datatype tar_end = EndOfArchive | HeaderError string

datatype tar_stream = TarStream "tar_entry list" tar_end

text \<open>
  A file of a zip archive: its name and what opening and reading it gives.
\<close>

datatype zip_file = ZipFile string "error + string"

text \<open>
  An HTTP response, as the two extraction paths read its body: through
  \<^verbatim>\<open>gzip.NewReader\<close> and \<^verbatim>\<open>tar.NewReader\<close>, or whole through \<^verbatim>\<open>ioutil.ReadAll\<close>.
\<close>

record response =
  gzip_tar :: "string + tar_stream"
  read_all :: "string + string"
  ContentLength :: int

text \<open>
  The world outside the program: the network, the zip decoder, and the largest capacity
  that \<^verbatim>\<open>make([]byte, 0, n)\<close> provides (the bound of the Go runtime for the platform, or
  less where memory is short).
\<close>

record world =
  http_Get :: "string \<Rightarrow> string + response"
  zip_NewReader :: "string \<Rightarrow> int \<Rightarrow> string + zip_file list"
  maxAlloc :: int

text \<open>
  \<^verbatim>\<open>make([]byte, 0, hdr.Size)\<close>: an empty slice, or the run-time panic
  \<^verbatim>\<open>makeslice: cap out of range\<close> when the capacity is negative or too large.
\<close>

definition make_bytes :: "world \<Rightarrow> int \<Rightarrow> string outcome" where
  "make_bytes w cap = (if cap < 0 \<or> maxAlloc w < cap then Panics else Returns [])"

text \<open>
  The \<^verbatim>\<open>for\<close> loop of \<^verbatim>\<open>remoteUntar\<close>, with its variables \<open>data\<close> and \<open>matched\<close>. The
  loop leaves only on \<^verbatim>\<open>err == io.EOF\<close>; after any other error \<^verbatim>\<open>hdr\<close> is nil and
  \<^verbatim>\<open>hdr.Name\<close> panics. For a matching entry the buffer is made with the capacity
  \<^verbatim>\<open>hdr.Size\<close> before \<^verbatim>\<open>io.Copy\<close> fills it; the result of \<^verbatim>\<open>io.Copy\<close> is not looked at.
\<close>

fun untar_loop ::
  "world \<Rightarrow> regexp \<Rightarrow> tar_entry list \<Rightarrow> tar_end \<Rightarrow> string \<Rightarrow> bool \<Rightarrow> (string \<times> bool) outcome" where
  "untar_loop w pattern [] EndOfArchive data matched = Returns (data, matched)"
| "untar_loop w pattern [] (HeaderError err) data matched = Panics"
| "untar_loop w pattern (hdr # entries) ending data matched =
     (if matches pattern (hdr_Name hdr) then
        (case make_bytes w (hdr_Size hdr) of
           Panics \<Rightarrow> Panics
         | Returns buf \<Rightarrow>
             untar_loop w pattern entries ending (data @ buf @ entry_bytes hdr) True)
      else untar_loop w pattern entries ending data matched)"

text \<open>The entries of an archive whose name matches a pattern, in archive order.\<close>

definition matching :: "regexp \<Rightarrow> tar_entry list \<Rightarrow> tar_entry list" where
  "matching pattern entries = filter (\<lambda>hdr. matches pattern (hdr_Name hdr)) entries"

text \<open>An entry whose header gives a size that \<^verbatim>\<open>make\<close> provides as a capacity.\<close>

definition allocatable :: "world \<Rightarrow> tar_entry \<Rightarrow> bool" where
  "allocatable w hdr = (0 \<le> hdr_Size hdr \<and> hdr_Size hdr \<le> maxAlloc w)"

text \<open>
  Each function returns the URIs it requested with \<^verbatim>\<open>http.Get\<close>, in order, beside its
  outcome.
\<close>

definition remoteUntar :: "world \<Rightarrow> string \<Rightarrow> regexp \<Rightarrow> string list \<times> (error + string) outcome" where
  "remoteUntar w uri pattern =
     ([uri],
      case http_Get w uri of
        Inl err \<Rightarrow> Returns (Inl (HttpGetError err))
      | Inr resp \<Rightarrow>
          (case gzip_tar resp of
             Inl err \<Rightarrow> Returns (Inl (GzipError err))
           | Inr (TarStream entries ending) \<Rightarrow>
               (case untar_loop w pattern entries ending [] False of
                  Panics \<Rightarrow> Panics
                | Returns (data, matched) \<Rightarrow>
                    if \<not> matched then Returns (Inl (NoFileMatchedPattern pattern))
                    else Returns (Inr data))))"

fun unzip_loop :: "regexp \<Rightarrow> zip_file list \<Rightarrow> string \<Rightarrow> bool \<Rightarrow> error + string \<times> bool" where
  "unzip_loop pattern [] data matched = Inr (data, matched)"
| "unzip_loop pattern (ZipFile name contents # files) data matched =
     (if matches pattern name then
        (case contents of
           Inl err \<Rightarrow> Inl err
         | Inr filedata \<Rightarrow> unzip_loop pattern files (data @ filedata) True)
      else unzip_loop pattern files data matched)"

definition remoteUnzip :: "world \<Rightarrow> string \<Rightarrow> regexp \<Rightarrow> string list \<times> (error + string) outcome" where
  "remoteUnzip w uri pattern =
     ([uri],
      case http_Get w uri of
        Inl err \<Rightarrow> Returns (Inl (HttpGetError err))
      | Inr resp \<Rightarrow>
          (case read_all resp of
             Inl err \<Rightarrow> Returns (Inl (ReadAllError err))
           | Inr zipdata \<Rightarrow>
               (case zip_NewReader w zipdata (ContentLength resp) of
                  Inl err \<Rightarrow> Returns (Inl (ZipReaderError err))
                | Inr files \<Rightarrow>
                    (case unzip_loop pattern files [] False of
                       Inl err \<Rightarrow> Returns (Inl err)
                     | Inr (data, matched) \<Rightarrow>
                         if \<not> matched then Returns (Inl (NoFileMatchedPattern pattern))
                         else Returns (Inr data)))))"

text \<open>
  \<^verbatim>\<open>type CompressionType string\<close> with the constants \<^verbatim>\<open>Zip = "zip"\<close> and \<^verbatim>\<open>Tar = "tar"\<close>.
\<close>

definition Zip :: string where
  "Zip = ''zip''"

definition Tar :: string where
  "Tar = ''tar''"

definition RemoteDecompress ::
  "world \<Rightarrow> string \<Rightarrow> regexp \<Rightarrow> string \<Rightarrow> string list \<times> (error + string) outcome" where
  "RemoteDecompress w uri pattern compressType =
     (if compressType = Zip then remoteUnzip w uri pattern
      else if compressType = Tar then remoteUntar w uri pattern
      else ([], Returns (Inl (UnrecognizedCompressionType compressType))))"

section \<open>The dependency graph snapshot loader (pypiquery/query.go)\<close>

text \<open>
  \<^verbatim>\<open>type PyPIGraph struct { Req map[string][]string; ReqBy map[string][]string }\<close>.
  A Go map is a partial function; a key that was never stored is \<open>None\<close>.
\<close>

record PyPIGraph =
  Req :: "string \<rightharpoonup> string list"
  ReqBy :: "string \<rightharpoonup> string list"

text \<open>
  Reading \<^verbatim>\<open>m[k]\<close> from a Go map gives the zero value, the nil slice, when the key is
  absent; \<^verbatim>\<open>append\<close> and iteration treat the nil slice as the empty sequence.
\<close>

definition slot :: "(string \<rightharpoonup> string list) \<Rightarrow> string \<Rightarrow> string list" where
  "slot m k = (case m k of None \<Rightarrow> [] | Some xs \<Rightarrow> xs)"

text \<open>
  The body of the \<^verbatim>\<open>for\<close> loop of \<^verbatim>\<open>NewPyPIGraph\<close> for one line returned by
  \<^verbatim>\<open>reader.ReadLine()\<close>: an edge line \<^verbatim>\<open>pkg:dep\<close> (exactly two pieces), a line with
  several colons (ignored), an isolated package, or the empty line (ignored).
\<close>

definition ensure :: "(string \<rightharpoonup> string list) \<Rightarrow> string \<Rightarrow> (string \<rightharpoonup> string list)" where
  "ensure m k = (if m k = None then m(k \<mapsto> []) else m)"

definition append_to :: "(string \<rightharpoonup> string list) \<Rightarrow> string \<Rightarrow> string \<Rightarrow> (string \<rightharpoonup> string list)" where
  "append_to m k v = m(k \<mapsto> slot m k @ [v])"

definition read_line_step :: "PyPIGraph \<Rightarrow> string \<Rightarrow> PyPIGraph" where
  "read_line_step graph line =
     (if CHR '':'' \<in> set line then
        (let lineSplit = Split line CHR '':'' in
         if length lineSplit = 2 then
           (let pkg = lineSplit ! 0; dep = lineSplit ! 1 in
            graph\<lparr>Req := append_to (ensure (Req graph) pkg) pkg dep,
                  ReqBy := append_to (ensure (ReqBy graph) dep) dep pkg\<rparr>)
         else graph)
      else if line \<noteq> [] then
        graph\<lparr>Req := ensure (Req graph) line, ReqBy := ensure (ReqBy graph) line\<rparr>
      else graph)"

text \<open>
  \<^verbatim>\<open>bufio.NewReader(f)\<close> reads through a buffer of \<^verbatim>\<open>defaultBufSize\<close> bytes.
\<close>

definition defaultBufSize :: nat where
  "defaultBufSize = 4096"

text \<open>
  \<^verbatim>\<open>reader.ReadLine()\<close> on the bytes of the file that are not read yet: the line it returns
  and the bytes left, or \<open>None\<close> when it reports an error (here: the end of the file).
  \<^verbatim>\<open>ReadLine\<close> calls \<^verbatim>\<open>ReadSlice('\n')\<close>, which looks for the line feed in the buffer.
  \<^item> A line feed among the first \<^verbatim>\<open>defaultBufSize\<close> bytes: the bytes before it are the
    line, without a carriage return that stands directly before the line feed.
  \<^item> No line feed there and the buffer is full (\<^verbatim>\<open>ErrBufferFull\<close>): the buffer is returned
    as a line with \<^verbatim>\<open>isPrefix\<close> set; a carriage return at its end is kept back for the
    next call. The loader discards \<^verbatim>\<open>isPrefix\<close> and takes the piece for a line.
  \<^item> No line feed and the file ends: the bytes left are the last line.
\<close>

definition ReadLine :: "string \<Rightarrow> (string \<times> string) option" where
  "ReadLine unread =
     (let n = length (takeWhile (\<lambda>b. b \<noteq> CHR ''\<newline>'') unread) in
      if unread = [] then None
      else if n < length unread \<and> n < defaultBufSize then
        (let line = take n unread in
         Some (if line \<noteq> [] \<and> last line = CHR 0x0D then butlast line else line,
               drop (Suc n) unread))
      else if defaultBufSize \<le> length unread then
        (let line = take defaultBufSize unread in
         if last line = CHR 0x0D then Some (butlast line, drop (defaultBufSize - 1) unread)
         else Some (line, drop defaultBufSize unread))
      else Some (unread, []))"

text \<open>The lines that the calls of \<^verbatim>\<open>ReadLine\<close> return, up to the first error.\<close>

function ReadLines :: "string \<Rightarrow> string list" where
  "ReadLines unread =
     (case ReadLine unread of
        None \<Rightarrow> []
      | Some (line, rest) \<Rightarrow> line # ReadLines rest)"
  by pat_completeness auto
termination
  by (relation "measure length")
     (auto simp: ReadLine_def Let_def defaultBufSize_def split: if_splits)

fun read_lines :: "PyPIGraph \<Rightarrow> string list \<Rightarrow> PyPIGraph" where
  "read_lines graph [] = graph"
| "read_lines graph (line # rest) = read_lines (read_line_step graph line) rest"

text \<open>
  \<^verbatim>\<open>NewPyPIGraph(file)\<close>. The file system is the parameter \<open>open_file\<close>: \<^verbatim>\<open>os.Open\<close> fails
  with an error, or the file delivers its bytes (up to its end, or to the first failing
  read: the loop ends at any error of \<^verbatim>\<open>ReadLine\<close>).
\<close>

definition NewPyPIGraph :: "(string \<Rightarrow> string + string) \<Rightarrow> string \<Rightarrow> string + PyPIGraph" where
  "NewPyPIGraph open_file file =
     (case open_file file of
        Inl err \<Rightarrow> Inl err
      | Inr bytes \<Rightarrow> Inr (read_lines \<lparr>Req = Map.empty, ReqBy = Map.empty\<rparr> (ReadLines bytes)))"

text \<open>
  The package names a snapshot mentions, in the words of the specification: the left and
  the right side of a line with exactly one colon, and a non-empty line with no colon.
\<close>

definition edge_line :: "string \<Rightarrow> string \<Rightarrow> string \<Rightarrow> bool" where
  "edge_line line pkg dep = (line = pkg @ CHR '':'' # dep \<and> CHR '':'' \<notin> set pkg \<and> CHR '':'' \<notin> set dep)"

definition isolated_line :: "string \<Rightarrow> bool" where
  "isolated_line line = (line \<noteq> [] \<and> CHR '':'' \<notin> set line)"

text \<open>
  The packages a line names on the side of \<open>Req\<close>, and on the side of \<open>ReqBy\<close>: the left
  (right) side of an edge line, the package of an isolated line, nothing for any other line.
\<close>

definition Req_names :: "string \<Rightarrow> string set" where
  "Req_names line = {pkg. (\<exists>dep. edge_line line pkg dep) \<or> (isolated_line line \<and> pkg = line)}"

definition ReqBy_names :: "string \<Rightarrow> string set" where
  "ReqBy_names line = {dep. (\<exists>pkg. edge_line line pkg dep) \<or> (isolated_line line \<and> dep = line)}"

text \<open>
  The lines of a text file: the texts between the line feeds, each without the carriage
  return of a line that ends in carriage return and line feed; bytes after the last line
  feed are a last line.
\<close>

definition chomp :: "string \<Rightarrow> string" where
  "chomp l = (if l \<noteq> [] \<and> last l = CHR 0x0D then butlast l else l)"

definition text_lines :: "string \<Rightarrow> string list" where
  "text_lines bytes =
     (let pieces = Split bytes CHR ''\<newline>'' in
      map chomp (butlast pieces) @ (if last pieces = [] then [] else [last pieces]))"

text \<open>Every line of the file, its carriage return included, fits into the buffer.\<close>

definition short_lines :: "string \<Rightarrow> bool" where
  "short_lines bytes = (\<forall>l \<in> set (Split bytes CHR ''\<newline>''). length l < defaultBufSize)"

section \<open>The crawler: source artifacts and requirement lines (query.go, package main)\<close>

text \<open>\<^verbatim>\<open>type Requirement struct { Name string; Constraint string; Version string }\<close>\<close>

record Requirement =
  Name :: string
  Constraint :: string
  Version :: string

text \<open>The class \<^verbatim>\<open>[A-Za-z0-9\._-]\<close>, the same class with \<^verbatim>\<open>/\<close>, \<^verbatim>\<open>[0-9\.]\<close> and \<^verbatim>\<open>\s\<close>.\<close>

definition name_cls :: cls where
  "name_cls = Class False [(CHR ''A'', CHR ''Z''), (CHR ''a'', CHR ''z''), (CHR ''0'', CHR ''9''),
     (CHR ''.'', CHR ''.''), (CHR ''_'', CHR ''_''), (CHR ''-'', CHR ''-'')]"

definition path_cls :: cls where
  "path_cls = Class False [(CHR ''/'', CHR ''/''), (CHR ''A'', CHR ''Z''), (CHR ''a'', CHR ''z''),
     (CHR ''0'', CHR ''9''), (CHR ''.'', CHR ''.''), (CHR ''_'', CHR ''_''), (CHR ''-'', CHR ''-'')]"

definition version_cls :: cls where
  "version_cls = Class False [(CHR ''0'', CHR ''9''), (CHR ''.'', CHR ''.'')]"

definition space_cls :: cls where
  "space_cls = Class False [(CHR 0x09, CHR 0x09), (CHR 0x0A, CHR 0x0A), (CHR 0x0C, CHR 0x0C),
     (CHR 0x0D, CHR 0x0D), (CHR '' '', CHR '' '')]"

text \<open>\<^verbatim>\<open>[/A-Za-z0-9\._-]+\.tar\.gz\<close>\<close>

definition tarRegexp :: rx where
  "tarRegexp = cat [Plus path_cls, Lit ''.tar.gz'']"

text \<open>\<^verbatim>\<open>([A-Za-z0-9\._-]+)(?:\[([A-Za-z0-9\._-]+)\])?\s*(?:(==|>=|>)\s*([0-9\.]+))?\<close>\<close>

definition requirementRegexp :: rx where
  "requirementRegexp = cat [
     Group 1 (Plus name_cls),
     Opt (cat [Lit ''['', Group 2 (Plus name_cls), Lit '']'']),
     Star space_cls,
     Opt (cat [Group 3 (Alt (Lit ''=='') (Alt (Lit ''>='') (Lit ''>''))),
               Star space_cls,
               Group 4 (Plus version_cls)])]"

text \<open>
  \<^verbatim>\<open>lastTar\<close>: the loop \<^verbatim>\<open>for f := len(files) - 1; f >= 0; f--\<close>. The counter of
  \<open>lastTar_from\<close> is \<open>f + 1\<close>, so that it stays a natural number when the loop ends.
\<close>

fun lastTar_from :: "string list \<Rightarrow> nat \<Rightarrow> string" where
  "lastTar_from files 0 = []"
| "lastTar_from files (Suc f) =
     (if MatchString tarRegexp (files ! f) then files ! f else lastTar_from files f)"

definition lastTar :: "string list \<Rightarrow> string" where
  "lastTar files = lastTar_from files (length files)"

text \<open>The two errors of \<^verbatim>\<open>parseRequirement\<close>, with the values their messages print.\<close>

datatype parse_error =
    ExpectedMatchOfLength5 "string list" string
  | UnableToParseRequirement string

definition parseRequirement :: "string \<Rightarrow> parse_error + Requirement" where
  "parseRequirement reqStr0 =
     (let reqStr = TrimSpace reqStr0;
          match = FindStringSubmatch requirementRegexp reqStr
      in if length match \<noteq> 5 then Inl (ExpectedMatchOfLength5 match reqStr)
         else if match ! 0 \<noteq> reqStr then Inl (UnableToParseRequirement reqStr)
         else Inr \<lparr>Name = match ! 1, Constraint = match ! 3, Version = match ! 4\<rparr>)"

section \<open>The repository URI of a package (cheerio/repo.go)\<close>

text \<open>The classes \<^verbatim>\<open>.\<close> (any character but a line feed) and \<^verbatim>\<open>[^/\n]\<close>.\<close>

definition dot :: cls where
  "dot = Class True [(CHR 0x0A, CHR 0x0A)]"

definition segment_cls :: cls where
  "segment_cls = Class True [(CHR ''/'', CHR ''/''), (CHR 0x0A, CHR 0x0A)]"

text \<open>
  \<^verbatim>\<open>(:?[^/\n]+)\<close> and \<^verbatim>\<open>(:?/.*)?\<close> as the source writes them: capturing groups that
  start with an optional colon.
\<close>

definition segment :: "nat \<Rightarrow> rx" where
  "segment i = Group i (cat [Opt (Lit '':''), Plus segment_cls])"

definition trailing :: "nat \<Rightarrow> rx" where
  "trailing i = Opt (Group i (cat [Opt (Lit '':''), Lit ''/'', Star dot]))"

text \<open>
  \<^verbatim>\<open>Home-page: (https?://github.com/(:?[^/\n]+)/(:?[^/\n]+))(:?/.*)?\n\<close>,
  \<^verbatim>\<open>Home-page: (https?://bitbucket.org/(:?[^/\n]+)/(:?[^/\n]+))(:?/.*)?\n\<close> and
  \<^verbatim>\<open>Home-page: (https?://code.google.com/p/(:?[^/\n]+))(:?/.*)?\n\<close>.
\<close>

definition github_pattern :: rx where
  "github_pattern = cat [Lit ''Home-page: '',
     Group 1 (cat [Lit ''http'', Opt (Lit ''s''), Lit ''://github'', One dot, Lit ''com/'',
                   segment 2, Lit ''/'', segment 3]),
     trailing 4, Lit ''\<newline>'']"

definition bitbucket_pattern :: rx where
  "bitbucket_pattern = cat [Lit ''Home-page: '',
     Group 1 (cat [Lit ''http'', Opt (Lit ''s''), Lit ''://bitbucket'', One dot, Lit ''org/'',
                   segment 2, Lit ''/'', segment 3]),
     trailing 4, Lit ''\<newline>'']"

definition google_pattern :: rx where
  "google_pattern = cat [Lit ''Home-page: '',
     Group 1 (cat [Lit ''http'', Opt (Lit ''s''), Lit ''://code'', One dot, Lit ''google'', One dot,
                   Lit ''com/p/'', segment 2]),
     trailing 3, Lit ''\<newline>'']"

definition repoPatterns :: "rx list" where
  "repoPatterns = [github_pattern, bitbucket_pattern, google_pattern]"

text \<open>\<^verbatim>\<open>Home-page: (.+)\n\<close>\<close>

definition homepageRegexp :: rx where
  "homepageRegexp = cat [Lit ''Home-page: '', Group 1 (Plus dot), Lit ''\<newline>'']"

text \<open>The hard-coded table \<^verbatim>\<open>pypiRepos\<close>; a key is looked up with \<open>map_of\<close>.\<close>

definition pypiRepos :: "(string \<times> string) list" where
  "pypiRepos = [
     (''ansible'', ''github.com/ansible/ansible''),
     (''apache-libcloud'', ''github.com/apache/libcloud''),
     (''bottle'', ''github.com/bottlepy/bottle''),
     (''celery'', ''github.com/celery/celery''),
     (''chameleon'', ''github.com/malthe/chameleon''),
     (''coverage'', ''bitbucket.org/ned/coveragepy''),
     (''distribute'', ''bitbucket.org/tarek/distribute''),
     (''django'', ''github.com/django/django''),
     (''django-cms'', ''github.com/divio/django-cms''),
     (''django-tastypie'', ''github.com/toastdriven/django-tastypie''),
     (''djangocms-admin-style'', ''github.com/divio/djangocms-admin-style''),
     (''djangorestframework'', ''github.com/tomchristie/django-rest-framework''),
     (''eve'', ''github.com/nicolaiarocci/eve''),
     (''fabric'', ''github.com/fabric/fabric''),
     (''flask'', ''github.com/mitsuhiko/flask''),
     (''gevent'', ''github.com/surfly/gevent''),
     (''gunicorn'', ''github.com/benoitc/gunicorn''),
     (''httpie'', ''github.com/jkbr/httpie''),
     (''httplib2'', ''github.com/jcgregorio/httplib2''),
     (''itsdangerous'', ''github.com/mitsuhiko/itsdangerous''),
     (''jinja2'', ''github.com/mitsuhiko/jinja2''),
     (''kazoo'', ''github.com/python-zk/kazoo''),
     (''kombu'', ''github.com/celery/kombu''),
     (''lamson'', ''github.com/zedshaw/lamson''),
     (''libcloud'', ''github.com/apache/libcloud''),
     (''lxml'', ''github.com/lxml/lxml''),
     (''mako'', ''github.com/zzzeek/mako''),
     (''markupsafe'', ''github.com/mitsuhiko/markupsafe''),
     (''matplotlib'', ''github.com/matplotlib/matplotlib''),
     (''mimeparse'', ''github.com/crosbymichael/mimeparse''),
     (''mock'', ''github.com/beyang/mock''),
     (''nltk'', ''github.com/nltk/nltk''),
     (''nose'', ''github.com/nose-devs/nose''),
     (''nova'', ''github.com/openstack/nova''),
     (''numpy'', ''github.com/numpy/numpy''),
     (''pandas'', ''github.com/pydata/pandas''),
     (''pastedeploy'', ''bitbucket.org/ianb/pastedeploy''),
     (''pattern'', ''github.com/clips/pattern''),
     (''psycopg2'', ''github.com/beyang/psycopg2''),
     (''pyramid'', ''github.com/Pylons/pyramid''),
     (''python-dateutil'', ''github.com/paxan/python-dateutil''),
     (''python-lust'', ''github.com/zedshaw/python-lust''),
     (''pyyaml'', ''github.com/yaml/pyyaml''),
     (''repoze.lru'', ''github.com/repoze/repoze.lru''),
     (''requests'', ''github.com/kennethreitz/requests''),
     (''salt'', ''github.com/saltstack/salt''),
     (''scikit-learn'', ''github.com/scikit-learn/scikit-learn''),
     (''scipy'', ''github.com/scipy/scipy''),
     (''sentry'', ''github.com/getsentry/sentry''),
     (''setuptools'', ''github.com/jaraco/setuptools''),
     (''sockjs-tornado'', ''github.com/mrjoes/sockjs-tornado''),
     (''south'', ''bitbucket.org/andrewgodwin/south''),
     (''sqlalchemy'', ''github.com/zzzeek/sqlalchemy''),
     (''ssh'', ''github.com/bitprophet/ssh''),
     (''tornado'', ''github.com/facebook/tornado''),
     (''translationstring'', ''github.com/Pylons/translationstring''),
     (''tulip'', ''github.com/sourcegraph/tulip''),
     (''venusian'', ''github.com/Pylons/venusian''),
     (''webob'', ''github.com/Pylons/webob''),
     (''webpy'', ''github.com/webpy/webpy''),
     (''werkzeug'', ''github.com/mitsuhiko/werkzeug''),
     (''zope.interface'', ''github.com/zopefoundation/zope.interface'')]"

text \<open>The two errors of \<^verbatim>\<open>FetchSourceRepoURI\<close> and the messages \<^verbatim>\<open>fmt.Errorf\<close> gives them.\<close>

datatype repo_error =
    CouldNotParseRepoURI string
  | NoHomepageFound string

fun Error :: "repo_error \<Rightarrow> string" where
  "Error (CouldNotParseRepoURI homepage) = ''Could not parse repo URI from homepage: '' @ homepage"
| "Error (NoHomepageFound rawMetadata) = ''No homepage found in metadata: '' @ rawMetadata"

text \<open>The loop over \<^verbatim>\<open>repoPatterns\<close>: the first pattern that matches returns its group 1.\<close>

fun check_patterns :: "rx list \<Rightarrow> string \<Rightarrow> string option" where
  "check_patterns [] rawMetadata = None"
| "check_patterns (pattern # patterns) rawMetadata =
     (let match = FindStringSubmatch pattern rawMetadata
      in if length match \<ge> 1 then Some (match ! 1) else check_patterns patterns rawMetadata)"

text \<open>
  \<^verbatim>\<open>FetchSourceRepoURI\<close>. Two functions of the package are not among the sources and are
  parameters: \<^verbatim>\<open>FetchRawMetadata\<close>, which returns the bytes of the metadata or an error,
  and \<^verbatim>\<open>NormalizedPkgName\<close>. The Go function returns a pair \<^verbatim>\<open>(string, error)\<close>:
  \<open>Inr uri\<close> is \<^verbatim>\<open>(uri, nil)\<close> and \<open>Inl e\<close> is \<^verbatim>\<open>("", e)\<close>.
\<close>

definition FetchSourceRepoURI ::
  "(string \<Rightarrow> string \<Rightarrow> string \<Rightarrow> string \<Rightarrow> 'e + string) \<Rightarrow> (string \<Rightarrow> string) \<Rightarrow> string
     \<Rightarrow> repo_error + string" where
  "FetchSourceRepoURI FetchRawMetadata NormalizedPkgName pkg =
     (let pattern = ''**/PKG-INFO'' in
      case FetchRawMetadata pkg pattern pattern pattern of
        Inl err \<Rightarrow> Inr []
      | Inr rawMetadata \<Rightarrow>
          (case check_patterns repoPatterns rawMetadata of
             Some uri \<Rightarrow> Inr uri
           | None \<Rightarrow>
               (case map_of pypiRepos (NormalizedPkgName pkg) of
                  Some hardURI \<Rightarrow> Inr (''https://'' @ hardURI)
                | None \<Rightarrow>
                    (let match = FindStringSubmatch homepageRegexp rawMetadata
                     in if length match \<ge> 1 then Inl (CouldNotParseRepoURI (match ! 1))
                        else Inl (NoHomepageFound rawMetadata)))))"

section \<open>The language of a pattern\<close>

text \<open>
  For a pattern whose classes are not negated, every character it reads is one ASCII
  byte. \<open>lang r\<close> is the set of strings such a pattern matches in full; \<open>cls_byte k b\<close>
  says that the ASCII byte \<open>b\<close> belongs to the class \<open>k\<close>.
\<close>

fun cls_byte :: "cls \<Rightarrow> char \<Rightarrow> bool" where
  "cls_byte (Class negated rs) b = (byte b < 0x80 \<and> in_ranges rs b \<noteq> negated)"

fun positive :: "cls \<Rightarrow> bool" where
  "positive (Class negated rs) = (\<not> negated)"

fun positive_rx :: "rx \<Rightarrow> bool" where
  "positive_rx (Lit w) = True"
| "positive_rx (One k) = positive k"
| "positive_rx (Plus k) = positive k"
| "positive_rx (Star k) = positive k"
| "positive_rx (Opt r) = positive_rx r"
| "positive_rx (Seq r1 r2) = (positive_rx r1 \<and> positive_rx r2)"
| "positive_rx (Alt r1 r2) = (positive_rx r1 \<and> positive_rx r2)"
| "positive_rx (Group i r) = positive_rx r"

fun lang :: "rx \<Rightarrow> string set" where
  "lang (Lit w) = {w}"
| "lang (One k) = {[b] | b. cls_byte k b}"
| "lang (Plus k) = {w. w \<noteq> [] \<and> list_all (cls_byte k) w}"
| "lang (Star k) = {w. list_all (cls_byte k) w}"
| "lang (Opt r) = insert [] (lang r)"
| "lang (Seq r1 r2) = {u @ v | u v. u \<in> lang r1 \<and> v \<in> lang r2}"
| "lang (Alt r1 r2) = lang r1 \<union> lang r2"
| "lang (Group i r) = lang r"

text \<open>An ASCII byte that is not white space: \<^verbatim>\<open>strings.TrimSpace\<close> never removes it.\<close>

definition plain :: "char \<Rightarrow> bool" where
  "plain b = (byte b < 0x80 \<and> b \<notin> {CHR 0x09, CHR 0x0A, CHR 0x0B, CHR 0x0C, CHR 0x0D, CHR 0x20})"

text \<open>The match that the search prefers: the head of the list of matches.\<close>

definition prefers :: "rx \<Rightarrow> string \<Rightarrow> string list \<Rightarrow> string \<times> string list \<Rightarrow> bool" where
  "prefers r s c x = (\<exists>xs. rmatch r s c = x # xs)"

text \<open>The optional parts of \<open>requirementRegexp\<close>, named for the proofs.\<close>

definition extra_rx :: rx where
  "extra_rx = Opt (cat [Lit ''['', Group 2 (Plus name_cls), Lit '']''])"

definition operator_rx :: rx where
  "operator_rx = Group 3 (Alt (Lit ''=='') (Alt (Lit ''>='') (Lit ''>'')))"

definition constraint_rx :: rx where
  "constraint_rx = Opt (cat [operator_rx, Star space_cls, Group 4 (Plus version_cls)])"




section \<open>Notions of the specification for the crawler\<close>

subsection \<open>Source artifacts\<close>

text \<open>
  A path in which \<^verbatim>\<open>.tar.gz\<close> follows a character of \<^verbatim>\<open>[/A-Za-z0-9\._-]\<close>, at the end of
  the path or anywhere before it.
\<close>

definition tar_path :: "string \<Rightarrow> bool" where
  "tar_path p = (\<exists>pre b post. p = pre @ b # ''.tar.gz'' @ post \<and>
      in_ranges [(CHR ''/'', CHR ''/''), (CHR ''A'', CHR ''Z''), (CHR ''a'', CHR ''z''),
        (CHR ''0'', CHR ''9''), (CHR ''.'', CHR ''.''), (CHR ''_'', CHR ''_''),
        (CHR ''-'', CHR ''-'')] b)"

subsection \<open>Requirement lines\<close>

text \<open>
  The grammar of a requirement line, in the words of the specification:
  \<^verbatim>\<open>name [ '[' extra ']' ] [ ws* ('=='|'>='|'>') ws* version ]\<close>, where \<open>name\<close> and
  \<open>extra\<close> are restricted to \<^verbatim>\<open>[A-Za-z0-9._-]+\<close> and \<open>version\<close> to \<^verbatim>\<open>[0-9.]+\<close>. White
  space is what \<^verbatim>\<open>\s\<close> stands for in a Go pattern: tab, line feed, form feed, carriage
  return and space. A line is given by its name, its optional extra and its optional
  constraint: the white space before the operator, the operator, the white space after
  it, and the version.
\<close>

definition name_char :: "char \<Rightarrow> bool" where
  "name_char b = in_ranges [(CHR ''A'', CHR ''Z''), (CHR ''a'', CHR ''z''), (CHR ''0'', CHR ''9''),
     (CHR ''.'', CHR ''.''), (CHR ''_'', CHR ''_''), (CHR ''-'', CHR ''-'')] b"

definition version_char :: "char \<Rightarrow> bool" where
  "version_char b = in_ranges [(CHR ''0'', CHR ''9''), (CHR ''.'', CHR ''.'')] b"

definition ws_char :: "char \<Rightarrow> bool" where
  "ws_char b = in_ranges [(CHR 0x09, CHR 0x09), (CHR 0x0A, CHR 0x0A), (CHR 0x0C, CHR 0x0C),
     (CHR 0x0D, CHR 0x0D), (CHR '' '', CHR '' '')] b"

type_synonym constraint = "string \<times> string \<times> string \<times> string"

fun constraint_text :: "constraint option \<Rightarrow> string" where
  "constraint_text None = []"
| "constraint_text (Some (ws1, operator, ws2, version)) = ws1 @ operator @ ws2 @ version"

fun extra_text :: "string option \<Rightarrow> string" where
  "extra_text None = []"
| "extra_text (Some extra) = ''['' @ extra @ '']''"

definition requirement_line :: "string \<Rightarrow> string option \<Rightarrow> constraint option \<Rightarrow> string" where
  "requirement_line name extra constraint = name @ extra_text extra @ constraint_text constraint"

fun grammatical_extra :: "string option \<Rightarrow> bool" where
  "grammatical_extra None = True"
| "grammatical_extra (Some extra) = (extra \<noteq> [] \<and> list_all name_char extra)"

fun grammatical_constraint :: "constraint option \<Rightarrow> bool" where
  "grammatical_constraint None = True"
| "grammatical_constraint (Some (ws1, operator, ws2, version)) =
     (list_all ws_char ws1 \<and> operator \<in> {''=='', ''>='', ''>''} \<and> list_all ws_char ws2 \<and>
      version \<noteq> [] \<and> list_all version_char version)"

definition grammatical :: "string \<Rightarrow> string option \<Rightarrow> constraint option \<Rightarrow> bool" where
  "grammatical name extra constraint =
     (name \<noteq> [] \<and> list_all name_char name \<and> grammatical_extra extra \<and>
      grammatical_constraint constraint)"

definition requirement_grammar :: "string set" where
  "requirement_grammar =
     {requirement_line name extra constraint | name extra constraint.
        grammatical name extra constraint}"

text \<open>
  White space in the wider sense of Unicode: the code points with the property
  \<^verbatim>\<open>White_Space\<close>, which are those that \<^verbatim>\<open>unicode.IsSpace\<close> accepts, and the texts that
  consist of their UTF-8 encodings.
\<close>

definition White_Space :: "nat list" where
  "White_Space =
     [0x09, 0x0A, 0x0B, 0x0C, 0x0D, 0x20, 0x85, 0xA0, 0x1680,
      0x2000, 0x2001, 0x2002, 0x2003, 0x2004, 0x2005, 0x2006, 0x2007, 0x2008, 0x2009, 0x200A,
      0x2028, 0x2029, 0x202F, 0x205F, 0x3000]"

text \<open>The UTF-8 encoding of a code point below \<^verbatim>\<open>U+10000\<close>.\<close>

definition utf8 :: "nat \<Rightarrow> string" where
  "utf8 n =
     (if n < 0x80 then [char_of n]
      else if n < 0x800 then [char_of (0xC0 + n div 0x40), char_of (0x80 + n mod 0x40)]
      else [char_of (0xE0 + n div 0x1000), char_of (0x80 + n div 0x40 mod 0x40),
            char_of (0x80 + n mod 0x40)])"

definition blank :: "string \<Rightarrow> bool" where
  "blank s = (\<exists>runes. s = concat (map utf8 runes) \<and> set runes \<subseteq> set White_Space)"

text \<open>
  The sentence "the entire input, after trimming surrounding white space, matches the
  grammar exactly", for one notion of white space that serves both for the space that
  surrounds the line and for \<open>ws\<close> in the grammar: \<open>white\<close> says which texts are runs of
  white space.
\<close>

fun grammatical_constraint_with :: "(string \<Rightarrow> bool) \<Rightarrow> constraint option \<Rightarrow> bool" where
  "grammatical_constraint_with white None = True"
| "grammatical_constraint_with white (Some (ws1, operator, ws2, version)) =
     (white ws1 \<and> operator \<in> {''=='', ''>='', ''>''} \<and> white ws2 \<and>
      version \<noteq> [] \<and> list_all version_char version)"

definition requirement_grammar_with :: "(string \<Rightarrow> bool) \<Rightarrow> string set" where
  "requirement_grammar_with white =
     {requirement_line name extra constraint | name extra constraint.
        name \<noteq> [] \<and> list_all name_char name \<and> grammatical_extra extra \<and>
        grammatical_constraint_with white constraint}"

definition whole_line :: "(string \<Rightarrow> bool) \<Rightarrow> string \<Rightarrow> bool" where
  "whole_line white reqStr =
     (\<exists>pre line post. reqStr = pre @ line @ post \<and> white pre \<and> white post \<and>
        line \<in> requirement_grammar_with white)"

text \<open>
  The operator and the version of a constraint, empty when the line has none, and the
  constraint without its white space.
\<close>

fun operator_of :: "constraint option \<Rightarrow> string" where
  "operator_of None = []"
| "operator_of (Some (ws1, operator, ws2, version)) = operator"

fun version_of :: "constraint option \<Rightarrow> string" where
  "version_of None = []"
| "version_of (Some (ws1, operator, ws2, version)) = version"

fun tight :: "constraint option \<Rightarrow> constraint option" where
  "tight None = None"
| "tight (Some (ws1, operator, ws2, version)) = Some ([], operator, [], version)"

text \<open>Rendering a parsed requirement again: its name, its operator and its version.\<close>

definition render :: "Requirement \<Rightarrow> string" where
  "render r = Name r @ Constraint r @ Version r"

section \<open>Notions of the specification for the repository URI\<close>




section \<open>Sample inputs\<close>

text \<open>A snapshot file that holds the single edge line \<^verbatim>\<open>a:b\<close>, wherever it is opened.\<close>

definition one_edge_file :: "string \<Rightarrow> string + string" where
  "one_edge_file path = Inr ''a:b\<newline>''"

text \<open>
  A snapshot with a repeated edge, an isolated package, a line with two colons and an
  empty line.
\<close>

definition sample_file :: "string \<Rightarrow> string + string" where
  "sample_file path = Inr ''a:b\<newline>c\<newline>a:b\<newline>x:y:z\<newline>\<newline>b:a\<newline>''"

text \<open>
  A snapshot whose only line is an edge from a package with a name of 4096 letters to the
  package \<open>b\<close>.
\<close>

definition long_name_file :: "string \<Rightarrow> string + string" where
  "long_name_file path = Inr (replicate 4096 CHR ''a'' @ '':b\<newline>'')"

text \<open>
  A world in which every download is a gzip stream that breaks off after the first entry
  of the tar archive (a connection that closes early, or a file that is not a tar
  archive after its first block). The bound of \<^verbatim>\<open>make\<close> is that of linux/amd64.
\<close>

definition broken_world :: world where
  "broken_world =
     \<lparr>http_Get = (\<lambda>uri. Inr \<lparr>gzip_tar = Inr (TarStream [TarEntry ''pkg-1.0/setup.py'' 17 ''import setuptools'']
                                              (HeaderError ''unexpected EOF'')),
                            read_all = Inr [], ContentLength = - 1\<rparr>),
      zip_NewReader = (\<lambda>zipdata size. Inl ''zip: not a valid zip file''),
      maxAlloc = 2 ^ 48\<rparr>"

text \<open>
  A world in which every download is a complete source archive of a package \<open>alpha\<close>,
  with a requirements file at two paths.
\<close>

definition sample_archive :: "tar_entry list" where
  "sample_archive =
     [TarEntry ''alpha-1.0/setup.py'' 17 ''import setuptools'',
      TarEntry ''alpha-1.0/alpha.egg-info/requires.txt'' 10 ''beta>=1.0\<newline>'',
      TarEntry ''alpha-1.0/alpha.egg-info/PKG-INFO'' 12 ''Name: alpha\<newline>'',
      TarEntry ''alpha-1.0/src/alpha.egg-info/requires.txt'' 6 ''gamma\<newline>'']"

definition sample_world :: world where
  "sample_world =
     \<lparr>http_Get = (\<lambda>uri. Inr \<lparr>gzip_tar = Inr (TarStream sample_archive EndOfArchive),
                            read_all = Inr [], ContentLength = - 1\<rparr>),
      zip_NewReader = (\<lambda>zipdata size. Inl ''zip: not a valid zip file''),
      maxAlloc = 2 ^ 48\<rparr>"

text \<open>
  A complete archive with two descriptor files, the second a sparse file: a few blocks in
  the archive, and a header that gives the size of the file with its holes.
\<close>

definition sparse_archive :: "tar_entry list" where
  "sparse_archive =
     [TarEntry ''alpha-1.0/PKG-INFO'' 12 ''Name: alpha\<newline>'',
      TarEntry ''alpha-1.0/tests/image/PKG-INFO'' (2 ^ 62) (replicate (2 ^ 62) (CHR 0x00))]"

definition sparse_world :: world where
  "sparse_world =
     \<lparr>http_Get = (\<lambda>uri. Inr \<lparr>gzip_tar = Inr (TarStream sparse_archive EndOfArchive),
                            read_all = Inr [], ContentLength = - 1\<rparr>),
      zip_NewReader = (\<lambda>zipdata size. Inl ''zip: not a valid zip file''),
      maxAlloc = 2 ^ 48\<rparr>"

text \<open>
  A download that breaks off after the descriptor file, which is read in full.
\<close>

definition truncated_world :: world where
  "truncated_world =
     \<lparr>http_Get = (\<lambda>uri. Inr \<lparr>gzip_tar = Inr (TarStream [TarEntry ''alpha-1.0/PKG-INFO'' 12 ''Name: alpha\<newline>'']
                                              (HeaderError ''unexpected EOF'')),
                            read_all = Inr [], ContentLength = - 1\<rparr>),
      zip_NewReader = (\<lambda>zipdata size. Inl ''zip: not a valid zip file''),
      maxAlloc = 2 ^ 48\<rparr>"

text \<open>
  Two patterns a caller may pass: the requirements file of an egg-info directory, and the
  descriptor file.
\<close>

definition requires_pattern :: regexp where
  "requires_pattern =
     Regexp ''egg-info/requires'' (MatchString (Lit ''egg-info/requires''))"

definition pkg_info_pattern :: regexp where
  "pkg_info_pattern = Regexp ''PKG-INFO'' (MatchString (Lit ''PKG-INFO''))"

text \<open>
  Stand-ins for the two functions that \<^verbatim>\<open>FetchSourceRepoURI\<close> calls: a
  \<^verbatim>\<open>FetchRawMetadata\<close> that fails, one that returns the given metadata, and a
  \<^verbatim>\<open>NormalizedPkgName\<close> that leaves a name as it is.
\<close>

definition metadata_unavailable :: "string \<Rightarrow> string \<Rightarrow> string \<Rightarrow> string \<Rightarrow> error + string" where
  "metadata_unavailable pkg pattern1 pattern2 pattern3 = Inl (HttpGetError ''connection refused'')"


definition as_is :: "string \<Rightarrow> string" where
  "as_is pkg = pkg"

section \<open>Properties of trimming\<close>

lemma byte_eq_iff: "byte a = byte b \<longleftrightarrow> a = b"
  by (simp add: byte_def)

lemma in_single_range: "(byte c \<le> byte b \<and> byte b \<le> byte c) = (b = c)"
  using byte_eq_iff[of b c] by auto

lemma spaces_first: "list_all (\<lambda>w. w \<noteq> [] \<and> \<not> plain (hd w)) unicode_spaces"
  by (simp add: unicode_spaces_def plain_def byte_def)

lemma spaces_last: "list_all (\<lambda>w. w \<noteq> [] \<and> \<not> plain (last w)) unicode_spaces"
  by (simp add: unicode_spaces_def plain_def byte_def)

lemma no_space_prefix:
  assumes "plain b"
  shows "List.find (\<lambda>w. prefix w (b # s)) unicode_spaces = None"
proof -
  have "\<not> prefix w (b # s)" if "w \<in> set unicode_spaces" for w
  proof
    assume p: "prefix w (b # s)"
    from that spaces_first have w: "w \<noteq> []" "\<not> plain (hd w)" by (auto simp: list_all_iff)
    with p have "hd w = b" by (cases w) auto
    with w assms show False by simp
  qed
  then show ?thesis by (simp add: find_None_iff)
qed

lemma no_space_suffix:
  assumes "plain b"
  shows "List.find (\<lambda>w. prefix w (b # s)) (map rev unicode_spaces) = None"
proof -
  have "\<not> prefix (rev w) (b # s)" if "w \<in> set unicode_spaces" for w
  proof
    assume p: "prefix (rev w) (b # s)"
    from that spaces_last have w: "w \<noteq> []" "\<not> plain (last w)" by (auto simp: list_all_iff)
    then have "hd (rev w) = last w" by (simp add: hd_rev)
    with p w have "last w = b" by (cases "rev w") auto
    with w assms show False by simp
  qed
  then show ?thesis by (auto simp: find_None_iff)
qed

lemma TrimSpace_plain:
  assumes "s \<noteq> []" and "plain (hd s)" and "plain (last s)"
  shows "TrimSpace s = s"
proof -
  obtain b s' where s: "s = b # s'" using assms(1) by (cases s) auto
  with assms(2) have l: "TrimLeft s = s" by (simp add: TrimLeft_def no_space_prefix)
  obtain a r where r: "rev s = a # r" using assms(1) by (cases "rev s") auto
  then have "a = last s" by (metis last_rev list.sel(1) rev_rev_ident)
  with assms(3) have "plain a" by simp
  then have "trim_front (map rev unicode_spaces) (a # r) = a # r"
    by (simp add: no_space_suffix)
  with r have "TrimRight s = s" by (simp add: TrimRight_def)
  with l show ?thesis by (simp add: TrimSpace_def)
qed

lemma trim_front_result:
  "trim_front spaces s = [] \<or> List.find (\<lambda>w. prefix w (trim_front spaces s)) spaces = None"
  by (induction spaces s rule: trim_front.induct) (auto split: option.splits)

lemma ws_char_cases: "ws_char a \<Longrightarrow> a \<in> {CHR 0x09, CHR 0x0A, CHR 0x0C, CHR 0x0D, CHR 0x20}"
  by (auto simp: ws_char_def in_single_range)

lemma TrimSpace_end: "TrimSpace s = [] \<or> \<not> ws_char (last (TrimSpace s))"
proof (cases "TrimSpace s = []")
  case True
  then show ?thesis by simp
next
  case False
  let ?r = "trim_front (map rev unicode_spaces) (rev (TrimLeft s))"
  have t: "TrimSpace s = rev ?r" by (simp add: TrimSpace_def TrimRight_def)
  with False have ne: "?r \<noteq> []" by simp
  with trim_front_result[of "map rev unicode_spaces" "rev (TrimLeft s)"]
  have n: "List.find (\<lambda>w. prefix w ?r) (map rev unicode_spaces) = None" by simp
  obtain a r' where r: "?r = a # r'" using ne by (cases ?r) auto
  have "\<not> ws_char a"
  proof
    assume "ws_char a"
    then have "[a] \<in> set unicode_spaces"
      by (auto dest!: ws_char_cases simp: unicode_spaces_def)
    then have "rev [a] \<in> rev ` set unicode_spaces" by (rule imageI)
    then have "[a] \<in> set (map rev unicode_spaces)" by simp
    moreover have "prefix [a] (a # r')" by simp
    ultimately have "\<exists>w \<in> set (map rev unicode_spaces). prefix w (a # r')" by blast
    with n r show False by (simp add: find_None_iff)
  qed
  moreover have "last (TrimSpace s) = a" using t r by (simp add: last_rev)
  ultimately show ?thesis by simp
qed

text \<open>
  The table of encodings that \<open>TrimSpace\<close> uses holds the encodings of the code points
  with the property \<^verbatim>\<open>White_Space\<close>.
\<close>

lemma utf8_White_Space: "map utf8 White_Space = unicode_spaces"
  by (simp add: White_Space_def utf8_def unicode_spaces_def char_of_def bit_0)

lemma blank_iff: "blank s = (\<exists>ws. s = concat ws \<and> set ws \<subseteq> set unicode_spaces)"
proof
  assume "blank s"
  then obtain runes where r: "s = concat (map utf8 runes)" "set runes \<subseteq> set White_Space"
    by (auto simp: blank_def)
  from r(2) have "set (map utf8 runes) \<subseteq> set (map utf8 White_Space)" by auto
  with r(1) show "\<exists>ws. s = concat ws \<and> set ws \<subseteq> set unicode_spaces"
    unfolding utf8_White_Space by blast
next
  assume "\<exists>ws. s = concat ws \<and> set ws \<subseteq> set unicode_spaces"
  then obtain ws where w: "s = concat ws" "set ws \<subseteq> set unicode_spaces" by blast
  from w(2) have "\<exists>runes. ws = map utf8 runes \<and> set runes \<subseteq> set White_Space"
  proof (induction ws)
    case Nil
    then show ?case by simp
  next
    case (Cons w ws)
    then obtain runes where r: "ws = map utf8 runes" "set runes \<subseteq> set White_Space" by auto
    from Cons.prems have "w \<in> set (map utf8 White_Space)" unfolding utf8_White_Space by simp
    then obtain n where "n \<in> set White_Space" "w = utf8 n" by auto
    with r show ?case by (intro exI[of _ "n # runes"]) simp
  qed
  with w(1) show "blank s" by (auto simp: blank_def)
qed

text \<open>
  The length of an encoding is given by its first byte, and only its first byte is not a
  continuation byte: no encoding starts or ends another one.
\<close>

lemma spaces_shape:
  "list_all (\<lambda>w. w \<noteq> [] \<and>
       length w = (if byte (hd w) < 0x80 then 1 else if byte (hd w) < 0xE0 then 2 else 3) \<and>
       \<not> cont (hd w) \<and> list_all cont (tl w)) unicode_spaces"
  by (simp add: unicode_spaces_def byte_def cont_def)

lemma spaces_nonempty: "[] \<notin> set unicode_spaces"
  using spaces_shape by (auto simp: list_all_iff)

lemma unique_prefix:
  assumes "v \<in> set unicode_spaces" and "w \<in> set unicode_spaces" and "prefix v (w @ rest)"
  shows "v = w"
proof -
  from assms(1,2) spaces_shape have v: "v \<noteq> []" and w: "w \<noteq> []"
    and lv: "length v = (if byte (hd v) < 0x80 then 1 else if byte (hd v) < 0xE0 then 2 else 3)"
    and lw: "length w = (if byte (hd w) < 0x80 then 1 else if byte (hd w) < 0xE0 then 2 else 3)"
    by (auto simp: list_all_iff)
  from assms(3) v w have "hd v = hd w" by (cases v; cases w) auto
  with lv lw have "length v = length w" by simp
  moreover from assms(3) obtain zs where "w @ rest = v @ zs" by (auto simp: prefix_def)
  then have "take (length v) (w @ rest) = v" by simp
  ultimately have "take (length w) (w @ rest) = v" by simp
  then show ?thesis by simp
qed

lemma inner_byte: "w = x @ v \<Longrightarrow> x \<noteq> [] \<Longrightarrow> v \<noteq> [] \<Longrightarrow> hd v \<in> set (tl w)"
  by (cases x; cases v) auto

lemma unique_suffix:
  assumes "v \<in> set unicode_spaces" and "w \<in> set unicode_spaces"
    and "prefix (rev v) (rev w @ rest)"
  shows "v = w"
proof -
  from assms(1,2) spaces_shape have v: "v \<noteq> []" "\<not> cont (hd v)" "list_all cont (tl v)"
    and w: "w \<noteq> []" "\<not> cont (hd w)" "list_all cont (tl w)"
    by (auto simp: list_all_iff)
  from assms(3) obtain zs where "rev w @ rest = rev v @ zs" by (auto simp: prefix_def)
  then have "(\<exists>x. rev w = rev v @ x) \<or> (\<exists>x. rev v = rev w @ x)"
    unfolding append_eq_append_conv2 by metis
  then consider (shorter) x where "rev w = rev v @ x"
    | (longer) x where "rev v = rev w @ x"
    by blast
  then show ?thesis
  proof cases
    case shorter
    then have e: "w = rev x @ v" by (metis rev_append rev_rev_ident)
    show ?thesis
    proof (cases "x = []")
      case True
      with e show ?thesis by simp
    next
      case False
      with inner_byte[OF e] v(1) have "hd v \<in> set (tl w)" by simp
      with w(3) v(2) show ?thesis by (auto simp: list_all_iff)
    qed
  next
    case longer
    then have e: "v = rev x @ w" by (metis rev_append rev_rev_ident)
    show ?thesis
    proof (cases "x = []")
      case True
      with e show ?thesis by simp
    next
      case False
      with inner_byte[OF e] w(1) have "hd w \<in> set (tl v)" by simp
      with v(3) w(2) show ?thesis by (auto simp: list_all_iff)
    qed
  qed
qed

text \<open>
  Trimming removes a run of white space in front of a text that does not start with
  white space, and what it removes is a run of white space.
\<close>

lemma trim_front_blank:
  assumes uniq: "\<And>v w rest. v \<in> set spaces \<Longrightarrow> w \<in> set spaces \<Longrightarrow> prefix v (w @ rest) \<Longrightarrow> v = w"
    and ne: "[] \<notin> set spaces" and ws: "set ws \<subseteq> set spaces"
    and t: "t = [] \<or> List.find (\<lambda>w. prefix w t) spaces = None"
  shows "trim_front spaces (concat ws @ t) = t"
  using ws
proof (induction ws)
  case Nil
  from t show ?case by (cases t) auto
next
  case (Cons w ws)
  from Cons.prems ne have w: "w \<in> set spaces" "w \<noteq> []" by auto
  obtain b w' where bw: "w = b # w'" using w(2) by (cases w) auto
  let ?s = "w' @ concat ws @ t"
  have p: "prefix w (b # ?s)" by (simp add: bw)
  with w(1) have "List.find (\<lambda>v. prefix v (b # ?s)) spaces \<noteq> None"
    by (auto simp: find_None_iff)
  then obtain v where f: "List.find (\<lambda>v. prefix v (b # ?s)) spaces = Some v" by auto
  then have "v \<in> set spaces" "prefix v (b # ?s)" by (auto simp: find_Some_iff)
  with uniq[of v w "concat ws @ t"] w(1) have "v = w" by (simp add: bw)
  with f have "trim_front spaces (b # ?s) = trim_front spaces (concat ws @ t)"
    by (simp add: bw)
  with Cons show ?case by (simp add: bw)
qed

lemma trim_front_decomp:
  assumes "[] \<notin> set spaces"
  shows "\<exists>ws. set ws \<subseteq> set spaces \<and> s = concat ws @ trim_front spaces s"
  using assms
proof (induction spaces s rule: trim_front.induct)
  case (1 spaces)
  show ?case by (intro exI[of _ "[]"]) simp
next
  case (2 spaces b s)
  show ?case
  proof (cases "List.find (\<lambda>w. prefix w (b # s)) spaces")
    case None
    then show ?thesis by (intro exI[of _ "[]"]) simp
  next
    case (Some w)
    then have w: "w \<in> set spaces" "prefix w (b # s)" by (auto simp: find_Some_iff)
    with 2(2) have "w \<noteq> []" by auto
    with w(2) have e: "b # s = w @ drop (length w - 1) s"
      by (cases w) (auto simp: prefix_def)
    from 2(1)[OF Some 2(2)] obtain ws where ws: "set ws \<subseteq> set spaces"
      "drop (length w - 1) s = concat ws @ trim_front spaces (drop (length w - 1) s)" by blast
    have t: "trim_front spaces (b # s) = trim_front spaces (drop (length w - 1) s)"
      using Some by simp
    note e
    also have "w @ drop (length w - 1) s
        = w @ concat ws @ trim_front spaces (drop (length w - 1) s)"
      by (rule arg_cong[where f = "(@) w"]) (rule ws(2))
    finally have "b # s = concat (w # ws) @ trim_front spaces (b # s)"
      unfolding t by simp
    with w(1) ws(1) show ?thesis by (intro exI[of _ "w # ws"]) simp
  qed
qed

text \<open>
  \<open>TrimSpace\<close> characterised: it returns the text between a run of white space at the
  front and one at the back, and it returns a text that starts and ends with a plain
  byte when white space is put around it.
\<close>

lemma TrimSpace_surrounded:
  assumes "blank pre" and "blank post" and "line \<noteq> []" and "plain (hd line)" and "plain (last line)"
  shows "TrimSpace (pre @ line @ post) = line"
proof -
  from assms(1) obtain ws1 where 1: "pre = concat ws1" "set ws1 \<subseteq> set unicode_spaces"
    by (auto simp: blank_iff)
  from assms(2) obtain ws2 where 2: "post = concat ws2" "set ws2 \<subseteq> set unicode_spaces"
    by (auto simp: blank_iff)
  obtain b l where l: "line = b # l" using assms(3) by (cases line) auto
  with assms(4) have "List.find (\<lambda>w. prefix w (line @ post)) unicode_spaces = None"
    by (simp add: no_space_prefix)
  with trim_front_blank[of unicode_spaces ws1 "line @ post"] unique_prefix spaces_nonempty 1
  have left: "TrimLeft (pre @ line @ post) = line @ post" by (simp add: TrimLeft_def)
  obtain a r where r: "rev line = a # r" using assms(3) by (cases "rev line") auto
  then have "a = last line" by (metis last_rev list.sel(1) rev_rev_ident)
  with assms(5) have "plain a" by simp
  then have "List.find (\<lambda>w. prefix w (a # r)) (map rev unicode_spaces) = None"
    by (rule no_space_suffix)
  then have n: "List.find (\<lambda>w. prefix w (rev line)) (map rev unicode_spaces) = None"
    unfolding r .
  have u: "v = w" if "v \<in> set (map rev unicode_spaces)" "w \<in> set (map rev unicode_spaces)"
    "prefix v (w @ rest)" for v w rest
  proof -
    from that(1,2) obtain v' w' where "v = rev v'" "w = rev w'" "v' \<in> set unicode_spaces"
      "w' \<in> set unicode_spaces" by auto
    with that(3) unique_suffix[of v' w' rest] show ?thesis by simp
  qed
  have e: "[] \<notin> set (map rev unicode_spaces)" using spaces_nonempty by auto
  have "rev (line @ post) = concat (map rev (rev ws2)) @ rev line"
    by (simp add: 2(1) rev_concat)
  moreover have "set (map rev (rev ws2)) \<subseteq> set (map rev unicode_spaces)" using 2(2) by auto
  ultimately have "trim_front (map rev unicode_spaces) (rev (line @ post)) = rev line"
    using trim_front_blank[of "map rev unicode_spaces" "map rev (rev ws2)" "rev line"] u e n
    by simp
  then have "TrimRight (line @ post) = line" by (simp add: TrimRight_def)
  with left show ?thesis by (simp add: TrimSpace_def)
qed

lemma TrimSpace_decomp: "\<exists>pre post. s = pre @ TrimSpace s @ post \<and> blank pre \<and> blank post"
proof -
  from trim_front_decomp[OF spaces_nonempty, of s] obtain ws1
    where 1: "set ws1 \<subseteq> set unicode_spaces" "s = concat ws1 @ TrimLeft s"
    by (auto simp: TrimLeft_def)
  have "[] \<notin> set (map rev unicode_spaces)" using spaces_nonempty by auto
  from trim_front_decomp[OF this, of "rev (TrimLeft s)"] obtain ws2
    where 2: "set ws2 \<subseteq> set (map rev unicode_spaces)"
      "rev (TrimLeft s) = concat ws2 @ rev (TrimSpace s)"
    by (auto simp: TrimSpace_def TrimRight_def)
  from 2(2) have "TrimLeft s = rev (concat ws2 @ rev (TrimSpace s))" by (metis rev_rev_ident)
  then have 3: "TrimLeft s = TrimSpace s @ concat (map rev (rev ws2))"
    by (simp add: rev_concat)
  from 2(1) have "set (map rev (rev ws2)) \<subseteq> set unicode_spaces" by force
  then have "blank (concat (map rev (rev ws2)))" unfolding blank_iff by blast
  moreover from 1(1) have "blank (concat ws1)" unfolding blank_iff by blast
  moreover from 1(2) 3 have "s = concat ws1 @ TrimSpace s @ concat (map rev (rev ws2))" by simp
  ultimately show ?thesis by blast
qed


section \<open>Properties of the pattern matcher\<close>

subsection \<open>Runes\<close>

lemma rune_width_pos: "0 < rune_width (b # s)"
  by (auto simp: Let_def split: list.splits)

lemma rune_width_le: "rune_width s \<le> length s"
  by (cases s) (auto simp: Let_def split: list.splits)

lemma rune_width_ascii_boundary:
  assumes "pre \<noteq> []" and "u = [] \<or> byte (hd u) < 0x80"
  shows "rune_width (pre @ u) \<le> length pre"
proof (cases u)
  case Nil
  then show ?thesis using rune_width_le[of pre] by simp
next
  case (Cons a u')
  with assms(2) have a: "byte a < 0x80" by simp
  obtain b0 p1 where pre: "pre = b0 # p1" using assms(1) by (cases pre) auto
  show ?thesis
  proof (cases p1)
    case Nil
    with pre Cons a show ?thesis by (auto simp: Let_def cont_def split: list.splits)
  next
    case p1: (Cons b1 p2)
    show ?thesis
    proof (cases p2)
      case Nil
      with pre p1 Cons a show ?thesis by (auto simp: Let_def cont_def split: list.splits)
    next
      case p2: (Cons b2 p3)
      show ?thesis
      proof (cases p3)
        case Nil
        with pre p1 p2 Cons a show ?thesis by (auto simp: Let_def cont_def split: list.splits)
      next
        case p3: (Cons b3 p4)
        with pre p1 p2 show ?thesis by (auto simp: Let_def split: list.splits)
      qed
    qed
  qed
qed

subsection \<open>What a match leaves\<close>

lemma star_rests_suffix: "x \<in> set (star_rests k s) \<Longrightarrow> suffix x s"
proof (induction k s rule: star_rests.induct)
  case (1 k)
  then show ?case by simp
next
  case (2 k b s)
  show ?case
  proof (cases "cls_step k (b # s) = 0")
    case True
    with 2 show ?thesis by simp
  next
    case False
    with 2 have "x = b # s \<or> x \<in> set (star_rests k (drop (cls_step k (b # s) - 1) s))"
      by (auto simp: Let_def)
    then show ?thesis
    proof
      assume "x = b # s"
      then show ?thesis by simp
    next
      assume "x \<in> set (star_rests k (drop (cls_step k (b # s) - 1) s))"
      with 2 False have "suffix x (drop (cls_step k (b # s) - 1) s)" by simp
      then show ?thesis by (meson suffix_ConsI suffix_drop suffix_order.trans)
    qed
  qed
qed

lemma plus_rests_suffix: "x \<in> set (plus_rests k s) \<Longrightarrow> suffix x s"
  by (auto simp: plus_rests_def Let_def split: if_splits dest!: star_rests_suffix)
     (meson suffix_drop suffix_order.trans)

lemma rmatch_sound:
  "(rest, c') \<in> set (rmatch r s c) \<Longrightarrow> suffix rest s \<and> length c' = length c"
proof (induction r arbitrary: s c rest c')
  case (Lit w)
  then show ?case by (auto split: if_splits simp: suffix_drop)
next
  case (One k)
  then show ?case by (auto simp: Let_def split: if_splits simp: suffix_drop)
next
  case (Plus k)
  then show ?case by (auto dest: plus_rests_suffix)
next
  case (Star k)
  then show ?case by (auto dest: star_rests_suffix)
next
  case (Opt r)
  then show ?case by auto
next
  case (Seq r1 r2)
  from Seq.prems obtain s1 c1 where 1: "(s1, c1) \<in> set (rmatch r1 s c)"
    and 2: "(rest, c') \<in> set (rmatch r2 s1 c1)" by auto
  from Seq.IH(1)[OF 1] Seq.IH(2)[OF 2] show ?case
    by (auto intro: suffix_order.trans)
next
  case (Alt r1 r2)
  then show ?case by auto
next
  case (Group i r)
  then show ?case by auto
qed

lemma rmatch_head_sound:
  "rmatch r s c = (rest, c') # xs \<Longrightarrow> suffix rest s \<and> length c' = length c"
  using rmatch_sound[of rest c' r s c] by simp

subsection \<open>The search\<close>

lemma search_found:
  "search re c0 s \<noteq> [] \<Longrightarrow>
   \<exists>pre u rest c xs. s = pre @ u \<and> rmatch re u c0 = (rest, c) # xs \<and>
      search re c0 s = c[0 := take (length u - length rest) u]"
proof (induction re c0 s rule: search.induct)
  case (1 re c0)
  then show ?case by (auto split: list.splits)
next
  case (2 re c0 b s)
  show ?case
  proof (cases "rmatch re (b # s) c0")
    case Nil
    with 2 obtain pre u rest c xs where
      "drop (rune_width (b # s) - 1) s = pre @ u" "rmatch re u c0 = (rest, c) # xs"
      "search re c0 (b # s) = c[0 := take (length u - length rest) u]"
      by auto
    moreover from this have "b # s = (b # take (rune_width (b # s) - 1) s @ pre) @ u"
      by (metis append_Cons append_assoc append_take_drop_id)
    ultimately show ?thesis by blast
  next
    case (Cons x xs)
    obtain rest c where "x = (rest, c)" by (cases x)
    with Cons have "b # s = [] @ (b # s) \<and> rmatch re (b # s) c0 = (rest, c) # xs \<and>
      search re c0 (b # s) = c[0 := take (length (b # s) - length rest) (b # s)]" by simp
    then show ?thesis by blast
  qed
qed

lemma search_here:
  "rmatch re s c0 = (rest, c) # xs \<Longrightarrow> search re c0 s = c[0 := take (length s - length rest) s]"
  by (cases s) auto

lemma search_none:
  assumes "search re c0 (pre @ u) = []" and "c0 \<noteq> []" and "u = [] \<or> byte (hd u) < 0x80"
  shows "rmatch re u c0 = []"
  using assms
proof (induction "length pre" arbitrary: pre rule: less_induct)
  case less
  have here: "rmatch re (pre @ u) c0 = []"
  proof (cases "rmatch re (pre @ u) c0")
    case Nil
    then show ?thesis .
  next
    case (Cons x xs)
    obtain rest c where x: "x = (rest, c)" by (cases x)
    from rmatch_head_sound[of re "pre @ u" c0 rest c xs] Cons x less.prems(2)
    have "c \<noteq> []" by auto
    with search_here[of re "pre @ u" c0 rest c xs] Cons x less.prems(1) show ?thesis
      by (metis list_update_nonempty)
  qed
  show ?case
  proof (cases pre)
    case Nil
    with here show ?thesis by simp
  next
    case (Cons b p)
    let ?n = "rune_width (pre @ u)"
    have n: "0 < ?n" "?n \<le> length pre"
      using Cons rune_width_pos[of b "p @ u"] rune_width_ascii_boundary[of pre u] less.prems(3)
      by auto
    have "search re c0 (pre @ u) = search re c0 (drop (?n - 1) (p @ u))"
      using here Cons by simp
    also have "drop (?n - 1) (p @ u) = drop ?n pre @ u"
      using n Cons by (cases ?n) auto
    finally have "search re c0 (drop ?n pre @ u) = []" using less.prems(1) by simp
    moreover have "length (drop ?n pre) < length pre" using n Cons by simp
    ultimately show ?thesis using less.hyps less.prems by blast
  qed
qed

subsection \<open>Patterns without negated classes: the matcher and the language agree\<close>

lemma in_ranges_ascii:
  "in_ranges rs b \<Longrightarrow> list_all (\<lambda>(lo, hi). byte hi < 0x80) rs \<Longrightarrow> byte b < 0x80"
  by (induction rs) auto

lemma cls_byte_ranges:
  "list_all (\<lambda>(lo, hi). byte hi < 0x80) rs \<Longrightarrow> cls_byte (Class False rs) b = in_ranges rs b"
  using in_ranges_ascii[of rs b] by auto

lemma cls_step_positive:
  "positive k \<Longrightarrow> cls_step k (b # s) = (if cls_byte k b then 1 else 0)"
  by (cases k) auto

lemma star_rests_positive:
  "positive k \<Longrightarrow>
   set (star_rests k s) = {rest. \<exists>w. s = w @ rest \<and> list_all (cls_byte k) w}"
proof (induction s)
  case Nil
  then show ?case by auto
next
  case (Cons b s)
  show ?case
  proof (cases "cls_byte k b")
    case True
    have "set (star_rests k (b # s)) = insert (b # s) (set (star_rests k s))"
      using True Cons.prems by (simp add: cls_step_positive)
    also have "\<dots> = insert (b # s) {rest. \<exists>w. s = w @ rest \<and> list_all (cls_byte k) w}"
      using Cons by simp
    also have "\<dots> = {rest. \<exists>w. b # s = w @ rest \<and> list_all (cls_byte k) w}"
    proof (rule set_eqI, rule iffI)
      fix x
      assume "x \<in> insert (b # s) {rest. \<exists>w. s = w @ rest \<and> list_all (cls_byte k) w}"
      then consider "x = b # s" | w where "s = w @ x" "list_all (cls_byte k) w" by auto
      then show "x \<in> {rest. \<exists>w. b # s = w @ rest \<and> list_all (cls_byte k) w}"
      proof cases
        case 1
        then have "b # s = [] @ x \<and> list_all (cls_byte k) []" by simp
        then show ?thesis by blast
      next
        case 2
        then have "b # s = (b # w) @ x \<and> list_all (cls_byte k) (b # w)" using True by simp
        then show ?thesis by blast
      qed
    next
      fix x
      assume "x \<in> {rest. \<exists>w. b # s = w @ rest \<and> list_all (cls_byte k) w}"
      then obtain w where w: "b # s = w @ x" "list_all (cls_byte k) w" by auto
      show "x \<in> insert (b # s) {rest. \<exists>w. s = w @ rest \<and> list_all (cls_byte k) w}"
      proof (cases w)
        case Nil
        with w show ?thesis by simp
      next
        case (Cons a w')
        with w have "s = w' @ x \<and> list_all (cls_byte k) w'" by simp
        then show ?thesis by blast
      qed
    qed
    finally show ?thesis .
  next
    case False
    have "set (star_rests k (b # s)) = {b # s}"
      using False Cons.prems by (simp add: cls_step_positive)
    also have "\<dots> = {rest. \<exists>w. b # s = w @ rest \<and> list_all (cls_byte k) w}"
    proof (rule set_eqI, rule iffI)
      fix x
      assume "x \<in> {b # s}"
      then have "b # s = [] @ x \<and> list_all (cls_byte k) []" by simp
      then show "x \<in> {rest. \<exists>w. b # s = w @ rest \<and> list_all (cls_byte k) w}" by blast
    next
      fix x
      assume "x \<in> {rest. \<exists>w. b # s = w @ rest \<and> list_all (cls_byte k) w}"
      then obtain w where w: "b # s = w @ x" "list_all (cls_byte k) w" by auto
      with False show "x \<in> {b # s}" by (cases w) auto
    qed
    finally show ?thesis .
  qed
qed

lemma plus_rests_positive:
  assumes "positive k"
  shows "set (plus_rests k s) = {rest. \<exists>w. w \<noteq> [] \<and> s = w @ rest \<and> list_all (cls_byte k) w}"
proof (cases s)
  case Nil
  then show ?thesis by (simp add: plus_rests_def)
next
  case (Cons b s')
  show ?thesis
  proof (cases "cls_byte k b")
    case True
    have "set (plus_rests k s) = {rest. \<exists>w. s' = w @ rest \<and> list_all (cls_byte k) w}"
      using True Cons assms by (simp add: plus_rests_def cls_step_positive star_rests_positive)
    also have "\<dots> = {rest. \<exists>w. w \<noteq> [] \<and> s = w @ rest \<and> list_all (cls_byte k) w}"
    proof (rule set_eqI, rule iffI)
      fix x
      assume "x \<in> {rest. \<exists>w. s' = w @ rest \<and> list_all (cls_byte k) w}"
      then obtain w where "s' = w @ x" "list_all (cls_byte k) w" by auto
      then have "b # w \<noteq> [] \<and> s = (b # w) @ x \<and> list_all (cls_byte k) (b # w)"
        using True Cons by simp
      then show "x \<in> {rest. \<exists>w. w \<noteq> [] \<and> s = w @ rest \<and> list_all (cls_byte k) w}" by blast
    next
      fix x
      assume "x \<in> {rest. \<exists>w. w \<noteq> [] \<and> s = w @ rest \<and> list_all (cls_byte k) w}"
      then obtain w where w: "w \<noteq> []" "s = w @ x" "list_all (cls_byte k) w" by auto
      then obtain a w' where "w = a # w'" by (cases w) auto
      with w Cons have "s' = w' @ x \<and> list_all (cls_byte k) w'" by simp
      then show "x \<in> {rest. \<exists>w. s' = w @ rest \<and> list_all (cls_byte k) w}" by blast
    qed
    finally show ?thesis .
  next
    case False
    have "set (plus_rests k s) = {}"
      using False Cons assms by (simp add: plus_rests_def cls_step_positive)
    moreover have "{rest. \<exists>w. w \<noteq> [] \<and> s = w @ rest \<and> list_all (cls_byte k) w} = {}"
    proof -
      have "\<not> (w \<noteq> [] \<and> s = w @ rest \<and> list_all (cls_byte k) w)" for w rest
        using False Cons by (cases w) auto
      then show ?thesis by blast
    qed
    ultimately show ?thesis by simp
  qed
qed

lemma rmatch_lang:
  "positive_rx r \<Longrightarrow> fst ` set (rmatch r s c) = {rest. \<exists>w \<in> lang r. s = w @ rest}"
proof (induction r arbitrary: s c)
  case (Lit w)
  show ?case by (auto simp: prefix_def image_iff)
next
  case (One k)
  show ?case
  proof (cases s)
    case Nil
    then show ?thesis by auto
  next
    case (Cons b s')
    with One show ?thesis by (auto simp: cls_step_positive)
  qed
next
  case (Plus k)
  then have "fst ` set (rmatch (Plus k) s c) = set (plus_rests k s)"
    by (simp add: image_image)
  with Plus show ?case by (auto simp: plus_rests_positive)
next
  case (Star k)
  then have "fst ` set (rmatch (Star k) s c) = set (star_rests k s)"
    by (simp add: image_image)
  with Star show ?case by (auto simp: star_rests_positive)
next
  case (Opt r)
  then have "fst ` set (rmatch r s c) = {rest. \<exists>w \<in> lang r. s = w @ rest}" by simp
  then show ?case by (auto simp: image_Un)
next
  case (Seq r1 r2)
  have 1: "fst ` set (rmatch r1 s c) = {rest. \<exists>w \<in> lang r1. s = w @ rest}"
    using Seq by simp
  have 2: "fst ` set (rmatch r2 s1 c1) = {rest. \<exists>w \<in> lang r2. s1 = w @ rest}" for s1 c1
    using Seq by simp
  show ?case
  proof (rule set_eqI, rule iffI)
    fix x
    assume "x \<in> fst ` set (rmatch (Seq r1 r2) s c)"
    then obtain s1 c1 where a: "(s1, c1) \<in> set (rmatch r1 s c)"
      and b: "x \<in> fst ` set (rmatch r2 s1 c1)" by (auto simp: image_iff) force
    from a have "s1 \<in> fst ` set (rmatch r1 s c)" by force
    with 1 obtain u where u: "u \<in> lang r1" "s = u @ s1" by auto
    from b 2 obtain v where v: "v \<in> lang r2" "s1 = v @ x" by auto
    from u v have "u @ v \<in> lang (Seq r1 r2) \<and> s = (u @ v) @ x" by auto
    then show "x \<in> {rest. \<exists>w \<in> lang (Seq r1 r2). s = w @ rest}" by blast
  next
    fix x
    assume "x \<in> {rest. \<exists>w \<in> lang (Seq r1 r2). s = w @ rest}"
    then obtain u v where uv: "u \<in> lang r1" "v \<in> lang r2" "s = (u @ v) @ x" by auto
    then have "v @ x \<in> {rest. \<exists>w \<in> lang r1. s = w @ rest}" by auto
    then have "v @ x \<in> fst ` set (rmatch r1 s c)" by (simp only: 1)
    then obtain c1 where c1: "(v @ x, c1) \<in> set (rmatch r1 s c)" by force
    from uv have "x \<in> {rest. \<exists>w \<in> lang r2. v @ x = w @ rest}" by auto
    then have "x \<in> fst ` set (rmatch r2 (v @ x) c1)" by (simp only: 2)
    then obtain c2 where "(x, c2) \<in> set (rmatch r2 (v @ x) c1)" by force
    with c1 have "(x, c2) \<in> set (rmatch (Seq r1 r2) s c)" by auto
    then show "x \<in> fst ` set (rmatch (Seq r1 r2) s c)" by force
  qed
next
  case (Alt r1 r2)
  then have "fst ` set (rmatch r1 s c) = {rest. \<exists>w \<in> lang r1. s = w @ rest}"
    and "fst ` set (rmatch r2 s c) = {rest. \<exists>w \<in> lang r2. s = w @ rest}" by simp_all
  then show ?case by (auto simp: image_Un)
next
  case (Group i r)
  then have "fst ` set (rmatch r s c) = {rest. \<exists>w \<in> lang r. s = w @ rest}" by simp
  moreover have "fst ` set (rmatch (Group i r) s c) = fst ` set (rmatch r s c)"
    by (auto simp: image_iff) force+
  ultimately show ?case by simp
qed

subsection \<open>The preferred match\<close>

lemma prefers_Lit: "prefers (Lit w) (w @ rest) c (rest, c)"
  by (simp add: prefers_def)

lemma prefers_Seq:
  "prefers r1 s c (s1, c1) \<Longrightarrow> prefers r2 s1 c1 x \<Longrightarrow> prefers (Seq r1 r2) s c x"
  by (auto simp: prefers_def)

lemma prefers_Group:
  "prefers r s c (s1, c1) \<Longrightarrow>
   prefers (Group i r) s c (s1, c1[i := take (length s - length s1) s])"
  by (auto simp: prefers_def)

lemma prefers_Opt: "prefers r s c x \<Longrightarrow> prefers (Opt r) s c x"
  by (auto simp: prefers_def)

lemma prefers_Opt_skip: "rmatch r s c = [] \<Longrightarrow> prefers (Opt r) s c (s, c)"
  by (auto simp: prefers_def)

lemma prefers_Alt1: "prefers r1 s c x \<Longrightarrow> prefers (Alt r1 r2) s c x"
  by (auto simp: prefers_def)

lemma prefers_Alt2: "rmatch r1 s c = [] \<Longrightarrow> prefers r2 s c x \<Longrightarrow> prefers (Alt r1 r2) s c x"
  by (auto simp: prefers_def)

lemma star_rests_greedy:
  assumes "positive k" and "list_all (cls_byte k) w" and "rest = [] \<or> \<not> cls_byte k (hd rest)"
  shows "\<exists>ys. star_rests k (w @ rest) = rest # ys"
  using assms(2)
proof (induction w)
  case Nil
  show ?case
  proof (cases rest)
    case Nil
    then show ?thesis by simp
  next
    case (Cons b s)
    with assms(1,3) show ?thesis by (simp add: cls_step_positive)
  qed
next
  case (Cons b w)
  then obtain ys where "star_rests k (w @ rest) = rest # ys" by auto
  with Cons.prems assms(1) show ?case by (simp add: cls_step_positive)
qed

lemma prefers_Star:
  "positive k \<Longrightarrow> list_all (cls_byte k) w \<Longrightarrow> rest = [] \<or> \<not> cls_byte k (hd rest) \<Longrightarrow>
   prefers (Star k) (w @ rest) c (rest, c)"
  using star_rests_greedy[of k w rest] by (auto simp: prefers_def)

lemma prefers_Plus:
  assumes "positive k" and "w \<noteq> []" and "list_all (cls_byte k) w"
    and "rest = [] \<or> \<not> cls_byte k (hd rest)"
  shows "prefers (Plus k) (w @ rest) c (rest, c)"
proof -
  obtain b w' where w: "w = b # w'" using assms(2) by (cases w) auto
  with assms(3) have "cls_byte k b" "list_all (cls_byte k) w'" by simp_all
  moreover from this star_rests_greedy[OF assms(1) _ assms(4)]
  obtain ys where "star_rests k (w' @ rest) = rest # ys" by blast
  ultimately show ?thesis using w assms(1)
    by (simp add: prefers_def plus_rests_def cls_step_positive)
qed

lemma search_prefers:
  "prefers re s c0 (rest, c) \<Longrightarrow> search re c0 s = c[0 := take (length s - length rest) s]"
  by (auto simp: prefers_def dest: search_here)

subsection \<open>Where the search finds its match\<close>






subsection \<open>Negated classes are greedy up to the byte they stop at\<close>





section \<open>Properties of the snapshot loader\<close>

lemma Split_nonempty: "Split s sep \<noteq> []"
  by (induction s) (auto split: list.splits)

lemma Split_length: "length (Split s sep) = Suc (count_list s sep)"
  by (induction s) (auto split: list.splits simp: Split_nonempty)

lemma Split_no_sep: "sep \<notin> set s \<Longrightarrow> Split s sep = [s]"
  by (induction s) auto

lemma Split_one_sep: "sep \<notin> set p \<Longrightarrow> sep \<notin> set d \<Longrightarrow> Split (p @ sep # d) sep = [p, d]"
  by (induction p) (auto simp: Split_no_sep)

lemma Split_two_cases:
  assumes "length (Split s sep) = 2"
  shows "\<exists>p d. s = p @ sep # d \<and> sep \<notin> set p \<and> sep \<notin> set d"
  using assms
proof (induction s)
  case Nil
  then show ?case by simp
next
  case (Cons c s)
  show ?case
  proof (cases "c = sep")
    case True
    with Cons.prems have "length (Split s sep) = 1" by simp
    then have "count_list s sep = 0" by (simp add: Split_length)
    then have "sep \<notin> set s" by (simp add: count_list_0_iff)
    with True show ?thesis by (intro exI[of _ "[]"] exI[of _ s]) simp
  next
    case False
    with Cons.prems have "length (Split s sep) = 2"
      by (auto split: list.splits)
    from Cons.IH[OF this] obtain p d where "s = p @ sep # d" "sep \<notin> set p" "sep \<notin> set d"
      by blast
    with False show ?thesis by (intro exI[of _ "c # p"] exI[of _ d]) simp
  qed
qed

lemma dom_ensure: "dom (ensure m k) = insert k (dom m)"
  by (auto simp: ensure_def split: if_splits)

lemma dom_append_to: "dom (append_to m k v) = insert k (dom m)"
  by (auto simp: append_to_def)

lemma slot_ensure: "slot (ensure m k) k' = slot m k'"
  by (auto simp: slot_def ensure_def split: option.splits)

lemma slot_append_to: "slot (append_to m k v) k' = (if k' = k then slot m k @ [v] else slot m k')"
  by (auto simp: slot_def append_to_def split: option.splits)

lemma step_edge:
  "edge_line line pkg dep \<Longrightarrow>
   read_line_step g line = g\<lparr>Req := append_to (ensure (Req g) pkg) pkg dep,
                  ReqBy := append_to (ensure (ReqBy g) dep) dep pkg\<rparr>"
  by (simp add: read_line_step_def edge_line_def Split_one_sep Let_def)

lemma step_isolated:
  "isolated_line line \<Longrightarrow>
   read_line_step g line = g\<lparr>Req := ensure (Req g) line, ReqBy := ensure (ReqBy g) line\<rparr>"
  by (simp add: read_line_step_def isolated_line_def)

text \<open>Every line is an edge line, an isolated package, or leaves the graph as it is.\<close>

lemma step_cases:
  fixes g :: PyPIGraph
  obtains (edge) pkg dep where "edge_line line pkg dep"
  | (isolated) "isolated_line line"
  | (ignored) "read_line_step g line = g"
proof (cases "CHR '':'' \<in> set line")
  case True
  show ?thesis
  proof (cases "length (Split line CHR '':'') = 2")
    case True
    from Split_two_cases[OF this] show ?thesis using edge by (auto simp: edge_line_def)
  next
    case False
    with True show ?thesis using ignored by (simp add: read_line_step_def Let_def)
  qed
next
  case False
  then show ?thesis using isolated ignored
    by (cases "line = []") (auto simp: isolated_line_def read_line_step_def)
qed

lemma edge_line_unique:
  assumes "edge_line line pkg dep" and "edge_line line pkg' dep'"
  shows "pkg' = pkg \<and> dep' = dep"
proof -
  from assms(1) have "Split line CHR '':'' = [pkg, dep]"
    by (simp add: edge_line_def Split_one_sep)
  moreover from assms(2) have "Split line CHR '':'' = [pkg', dep']"
    by (simp add: edge_line_def Split_one_sep)
  ultimately show ?thesis by simp
qed

lemma edge_not_isolated: "edge_line line pkg dep \<Longrightarrow> \<not> isolated_line line"
  by (auto simp: edge_line_def isolated_line_def)

text \<open>One line adds exactly the entries of the packages it names.\<close>

lemma step_dom:
  "dom (Req (read_line_step g line)) = dom (Req g) \<union> Req_names line \<and>
   dom (ReqBy (read_line_step g line)) = dom (ReqBy g) \<union> ReqBy_names line"
proof -
  consider (edge) pkg dep where "edge_line line pkg dep" | (isolated) "isolated_line line"
    | (neither) "\<not> isolated_line line" "\<And>pkg dep. \<not> edge_line line pkg dep" by blast
  then show ?thesis
  proof cases
    case edge
    have "Req_names line = {pkg}"
      unfolding Req_names_def using edge edge_line_unique[OF edge] edge_not_isolated[OF edge]
      by blast
    moreover have "ReqBy_names line = {dep}"
      unfolding ReqBy_names_def using edge edge_line_unique[OF edge] edge_not_isolated[OF edge]
      by blast
    ultimately show ?thesis using edge by (simp add: step_edge dom_ensure dom_append_to)
  next
    case isolated
    have "Req_names line = {line}"
      unfolding Req_names_def using isolated edge_not_isolated by blast
    moreover have "ReqBy_names line = {line}"
      unfolding ReqBy_names_def using isolated edge_not_isolated by blast
    ultimately show ?thesis using isolated by (simp add: step_isolated dom_ensure)
  next
    case neither
    then have e: "Req_names line = {}" "ReqBy_names line = {}"
      unfolding Req_names_def ReqBy_names_def by blast+
    have "read_line_step g line = g"
    proof (cases "CHR '':'' \<in> set line")
      case True
      have "length (Split line CHR '':'') \<noteq> 2"
      proof
        assume "length (Split line CHR '':'') = 2"
        from Split_two_cases[OF this] neither(2) show False by (auto simp: edge_line_def)
      qed
      with True show ?thesis by (simp add: read_line_step_def Let_def)
    next
      case False
      with neither(1) have "line = []" by (simp add: isolated_line_def)
      then show ?thesis by (simp add: read_line_step_def)
    qed
    with e show ?thesis by simp
  qed
qed

lemma read_lines_dom:
  "dom (Req (read_lines g lines)) = dom (Req g) \<union> (\<Union>line \<in> set lines. Req_names line) \<and>
   dom (ReqBy (read_lines g lines)) = dom (ReqBy g) \<union> (\<Union>line \<in> set lines. ReqBy_names line)"
proof (induction lines arbitrary: g)
  case Nil
  show ?case by simp
next
  case (Cons l ls)
  from Cons[of "read_line_step g l"] step_dom[of g l] show ?case
    by (simp add: Un_assoc)
qed

lemma step_count:
  "count_list (slot (Req g) pkg) dep = count_list (slot (ReqBy g) dep) pkg \<Longrightarrow>
   count_list (slot (Req (read_line_step g line)) pkg) dep
     = count_list (slot (ReqBy (read_line_step g line)) dep) pkg"
  by (rule step_cases[where line=line and g=g])
     (auto simp: step_edge step_isolated slot_ensure slot_append_to)

lemma read_lines_count:
  "(\<And>pkg dep. count_list (slot (Req g) pkg) dep = count_list (slot (ReqBy g) dep) pkg) \<Longrightarrow>
   count_list (slot (Req (read_lines g lines)) pkg) dep
     = count_list (slot (ReqBy (read_lines g lines)) dep) pkg"
proof (induction lines arbitrary: g)
  case Nil
  then show ?case by simp
next
  case (Cons l ls)
  show ?case by (simp, rule Cons.IH, rule step_count, rule Cons.prems)
qed

lemmas graph_eval =
  NewPyPIGraph_def read_line_step_def Let_def append_to_def ensure_def slot_def

declare ReadLines.simps [simp del]

text \<open>The three cases of \<^verbatim>\<open>ReadLine\<close>.\<close>

lemma ReadLine_end: "ReadLine [] = None"
  by (simp add: ReadLine_def)

lemma takeWhile_up_to:
  "c \<notin> set l \<Longrightarrow> takeWhile (\<lambda>b. b \<noteq> c) (l @ rest) = l @ takeWhile (\<lambda>b. b \<noteq> c) rest"
  by (induction l) auto

lemma ReadLine_line_feed:
  assumes "CHR ''\<newline>'' \<notin> set l" and "length l < defaultBufSize"
  shows "ReadLine (l @ CHR ''\<newline>'' # rest) = Some (chomp l, rest)"
proof -
  from assms(1) have "takeWhile (\<lambda>b. b \<noteq> CHR ''\<newline>'') (l @ CHR ''\<newline>'' # rest) = l"
    by (simp add: takeWhile_up_to)
  with assms(2) show ?thesis by (simp add: ReadLine_def chomp_def)
qed

lemma ReadLine_last_line:
  assumes "s \<noteq> []" and "CHR ''\<newline>'' \<notin> set s" and "length s < defaultBufSize"
  shows "ReadLine s = Some (s, [])"
proof -
  from assms(2) have t: "takeWhile (\<lambda>b. b \<noteq> CHR ''\<newline>'') s = s"
    using takeWhile_up_to[of "CHR ''\<newline>''" s "[]"] by simp
  show ?thesis unfolding ReadLine_def Let_def t using assms(1,3) by simp
qed

lemma ReadLine_buffer_full:
  assumes "length p = defaultBufSize" and "CHR ''\<newline>'' \<notin> set p" and "last p \<noteq> CHR 0x0D"
  shows "ReadLine (p @ rest) = Some (p, rest)"
proof -
  from assms(2) have "takeWhile (\<lambda>b. b \<noteq> CHR ''\<newline>'') (p @ rest)
      = p @ takeWhile (\<lambda>b. b \<noteq> CHR ''\<newline>'') rest"
    by (rule takeWhile_up_to)
  then have "length p \<le> length (takeWhile (\<lambda>b. b \<noteq> CHR ''\<newline>'') (p @ rest))"
    by simp
  with assms(1) have "\<not> length (takeWhile (\<lambda>b. b \<noteq> CHR ''\<newline>'') (p @ rest)) < defaultBufSize"
    by simp
  moreover from assms(1) have "p \<noteq> []" by (auto simp: defaultBufSize_def)
  ultimately show ?thesis using assms(1,3) by (simp add: ReadLine_def)
qed

lemma Split_first_piece:
  "sep \<notin> set l \<Longrightarrow> Split (l @ sep # rest) sep = l # Split rest sep"
  by (induction l) (auto simp: Split_nonempty split: list.splits)

text \<open>
  When every line fits into the buffer, \<^verbatim>\<open>ReadLine\<close> returns the lines of the file one
  after the other.
\<close>

lemma ReadLines_text_lines: "short_lines s \<Longrightarrow> ReadLines s = text_lines s"
proof (induction s rule: length_induct)
  case (1 s)
  show ?case
  proof (cases "CHR ''\<newline>'' \<in> set s")
    case False
    show ?thesis
    proof (cases "s = []")
      case True
      then show ?thesis by (simp add: ReadLines.simps ReadLine_end text_lines_def)
    next
      case nonempty: False
      from False 1(2) have "length s < defaultBufSize"
        by (simp add: short_lines_def Split_no_sep)
      from ReadLine_last_line[OF nonempty False this] have "ReadLines s = [s]"
        by (simp add: ReadLines.simps[of s] ReadLines.simps[of "[]"] ReadLine_end)
      with False nonempty show ?thesis by (simp add: text_lines_def Split_no_sep)
    qed
  next
    case True
    then obtain l rest where s: "s = l @ CHR ''\<newline>'' # rest" and l: "CHR ''\<newline>'' \<notin> set l"
      by (auto dest: split_list_first)
    from l have sp: "Split s CHR ''\<newline>'' = l # Split rest CHR ''\<newline>''"
      unfolding s by (rule Split_first_piece)
    with 1(2) have short: "length l < defaultBufSize" "short_lines rest"
      by (simp_all add: short_lines_def)
    from s have "length rest < length s" by simp
    with 1(1) short(2) have ih: "ReadLines rest = text_lines rest" by blast
    from ReadLine_line_feed[OF l short(1)] have "ReadLines s = chomp l # ReadLines rest"
      unfolding s by (simp add: ReadLines.simps[of "l @ CHR ''\<newline>'' # rest"])
    with ih sp show ?thesis by (simp add: text_lines_def Split_nonempty Let_def)
  qed
qed

lemma one_edge_lines: "ReadLines ''a:b\<newline>'' = [''a:b'']"
proof -
  have "short_lines ''a:b\<newline>''" by (simp add: short_lines_def defaultBufSize_def)
  from ReadLines_text_lines[OF this] show ?thesis by (simp add: text_lines_def chomp_def)
qed

lemma sample_lines:
  "short_lines ''a:b\<newline>c\<newline>a:b\<newline>x:y:z\<newline>\<newline>b:a\<newline>''"
  "text_lines ''a:b\<newline>c\<newline>a:b\<newline>x:y:z\<newline>\<newline>b:a\<newline>''
     = [''a:b'', ''c'', ''a:b'', ''x:y:z'', [], ''b:a'']"
  by (simp_all add: short_lines_def defaultBufSize_def text_lines_def chomp_def)

text \<open>
  A line that does not fit into the buffer is read in pieces, and the loader takes each
  piece for a line: of the edge from the package with the long name to \<open>b\<close> it makes an
  isolated package and an edge from the package with the empty name.
\<close>

lemma long_name_lines:
  "ReadLines (replicate 4096 CHR ''a'' @ '':b\<newline>'') = [replicate 4096 CHR ''a'', '':b'']"
proof -
  have "ReadLine (replicate 4096 CHR ''a'' @ '':b\<newline>'') = Some (replicate 4096 CHR ''a'', '':b\<newline>'')"
    by (rule ReadLine_buffer_full) (simp_all add: defaultBufSize_def)
  moreover have "ReadLines '':b\<newline>'' = ['':b'']"
  proof -
    have "short_lines '':b\<newline>''" by (simp add: short_lines_def defaultBufSize_def)
    from ReadLines_text_lines[OF this] show ?thesis by (simp add: text_lines_def chomp_def)
  qed
  ultimately show ?thesis
    by (simp add: ReadLines.simps[of "replicate 4096 CHR ''a'' @ '':b\<newline>''"])
qed

lemma NewPyPIGraph_long_line:
  "\<exists>graph. NewPyPIGraph long_name_file ''pypi_graph'' = Inr graph \<and>
     dom (Req graph) = {replicate 4096 CHR ''a'', []} \<and>
     dom (ReqBy graph) = {replicate 4096 CHR ''a'', ''b''}"
proof -
  have i: "isolated_line (replicate 4096 CHR ''a'')" by (simp add: isolated_line_def)
  have e: "edge_line '':b'' [] ''b''" by (simp add: edge_line_def)
  have "Req_names (replicate 4096 CHR ''a'') = {replicate 4096 CHR ''a''}"
    unfolding Req_names_def using i edge_not_isolated by blast
  moreover have "ReqBy_names (replicate 4096 CHR ''a'') = {replicate 4096 CHR ''a''}"
    unfolding ReqBy_names_def using i edge_not_isolated by blast
  moreover have "Req_names '':b'' = {[]}"
    unfolding Req_names_def using e edge_line_unique[OF e] edge_not_isolated[OF e] by blast
  moreover have "ReqBy_names '':b'' = {''b''}"
    unfolding ReqBy_names_def using e edge_line_unique[OF e] edge_not_isolated[OF e] by blast
  ultimately show ?thesis
    using read_lines_dom[of "\<lparr>Req = Map.empty, ReqBy = Map.empty\<rparr>"
        "[replicate 4096 CHR ''a'', '':b'']"]
    by (simp add: NewPyPIGraph_def long_name_file_def long_name_lines insert_commute)
qed

text \<open>
  Claim C1, as the code has it. For a snapshot whose lines fit into the buffer of the
  reader (fewer than 4096 bytes each), the loader returns a graph in which a package has
  an entry in \<open>Req\<close> exactly when some line of the snapshot names it as the left side of an
  edge \<^verbatim>\<open>pkg:dep\<close> with exactly one colon or as an isolated package (a non-empty line
  without a colon), and an entry in \<open>ReqBy\<close> exactly when some line names it as the right
  side of such an edge or as an isolated package. So the right side of an edge gets no
  \<open>Req\<close> entry from that line, and the left side no \<open>ReqBy\<close> entry.
\<close>

theorem NewPyPIGraph_entries:
  assumes "open_file file = Inr bytes" and "short_lines bytes"
  shows "\<exists>graph. NewPyPIGraph open_file file = Inr graph \<and>
           dom (Req graph) = (\<Union>line \<in> set (text_lines bytes). Req_names line) \<and>
           dom (ReqBy graph) = (\<Union>line \<in> set (text_lines bytes). ReqBy_names line)"
  using assms(1) ReadLines_text_lines[OF assms(2)]
    read_lines_dom[of "\<lparr>Req = Map.empty, ReqBy = Map.empty\<rparr>" "text_lines bytes"]
  by (simp add: NewPyPIGraph_def)

theorem NewPyPIGraph_entries_witness:
  "\<exists>graph. NewPyPIGraph sample_file ''pypi_graph'' = Inr graph \<and>
      ''a'' \<in> dom (Req graph) \<and> ''b'' \<in> dom (ReqBy graph) \<and>
      ''c'' \<in> dom (Req graph) \<and> ''c'' \<in> dom (ReqBy graph) \<and>
      ''x'' \<notin> dom (Req graph) \<and> ''z'' \<notin> dom (ReqBy graph)"
proof -
  let ?bytes = "''a:b\<newline>c\<newline>a:b\<newline>x:y:z\<newline>\<newline>b:a\<newline>''"
  have f: "sample_file ''pypi_graph'' = Inr ?bytes" by (simp add: sample_file_def)
  have l: "Req_names ''a:b'' = {''a''}" "Req_names ''c'' = {''c''}"
    "Req_names ''x:y:z'' = {}" "Req_names [] = {}" "Req_names ''b:a'' = {''b''}"
    by (auto simp: Req_names_def edge_line_def isolated_line_def Cons_eq_append_conv)
  have r: "ReqBy_names ''a:b'' = {''b''}" "ReqBy_names ''c'' = {''c''}"
    "ReqBy_names ''x:y:z'' = {}" "ReqBy_names [] = {}" "ReqBy_names ''b:a'' = {''a''}"
    by (auto simp: ReqBy_names_def edge_line_def isolated_line_def Cons_eq_append_conv)
  from NewPyPIGraph_entries[of sample_file "''pypi_graph''" ?bytes, OF f sample_lines(1)]
  obtain graph where g: "NewPyPIGraph sample_file ''pypi_graph'' = Inr graph"
    "dom (Req graph) = (\<Union>line \<in> set (text_lines ?bytes). Req_names line)"
    "dom (ReqBy graph) = (\<Union>line \<in> set (text_lines ?bytes). ReqBy_names line)" by blast
  from g(2,3) l r have "''a'' \<in> dom (Req graph) \<and> ''b'' \<in> dom (ReqBy graph) \<and>
      ''c'' \<in> dom (Req graph) \<and> ''c'' \<in> dom (ReqBy graph) \<and>
      ''x'' \<notin> dom (Req graph) \<and> ''z'' \<notin> dom (ReqBy graph)"
    unfolding sample_lines(2) by simp
  with g(1) show ?thesis by blast
qed

text \<open>
  Claim C1 as the specification states it fails: after the one-line snapshot \<^verbatim>\<open>a:b\<close> the
  package \<open>b\<close>, the right side of the edge, has no entry in \<open>Req\<close>, and \<open>a\<close> has none in
  \<open>ReqBy\<close>.
\<close>

theorem NewPyPIGraph_edge_counterexample:
  "edge_line ''a:b'' ''a'' ''b'' \<and>
   NewPyPIGraph one_edge_file ''pypi_graph''
     = Inr \<lparr>Req = [''a'' \<mapsto> [''b'']], ReqBy = [''b'' \<mapsto> [''a'']]\<rparr> \<and>
   ''b'' \<notin> dom [''a'' \<mapsto> [''b'']] \<and> ''a'' \<notin> dom [''b'' \<mapsto> [''a'']]"
  by (simp add: edge_line_def one_edge_file_def one_edge_lines graph_eval)

text \<open>
  Claim C5. In every graph decoded from a snapshot, \<open>dep\<close> occurs in \<open>Req[pkg]\<close> exactly
  as often as \<open>pkg\<close> occurs in \<open>ReqBy[dep]\<close>, an absent entry reading as the empty
  sequence (as \<^verbatim>\<open>Requires\<close> and \<^verbatim>\<open>RequiredBy\<close> read it).
\<close>

theorem NewPyPIGraph_symmetric:
  "NewPyPIGraph open_file file = Inr graph \<Longrightarrow>
   count_list (slot (Req graph) pkg) dep = count_list (slot (ReqBy graph) dep) pkg"
  by (auto simp: NewPyPIGraph_def split: sum.splits intro!: read_lines_count)
     (simp add: slot_def)

theorem NewPyPIGraph_symmetric_witness:
  "\<exists>graph. NewPyPIGraph sample_file ''pypi_graph'' = Inr graph \<and>
     count_list (slot (Req graph) ''a'') ''b'' = 2 \<and>
     count_list (slot (ReqBy graph) ''b'') ''a'' = 2"
proof -
  obtain graph where g: "NewPyPIGraph sample_file ''pypi_graph'' = Inr graph"
    by (simp add: NewPyPIGraph_def sample_file_def)
  have "ReadLines ''a:b\<newline>c\<newline>a:b\<newline>x:y:z\<newline>\<newline>b:a\<newline>''
      = [''a:b'', ''c'', ''a:b'', ''x:y:z'', [], ''b:a'']"
    using ReadLines_text_lines[OF sample_lines(1)] sample_lines(2) by simp
  then have "count_list (slot (Req graph) ''a'') ''b'' = 2"
    using g by (auto simp: sample_file_def graph_eval)
  with NewPyPIGraph_symmetric[OF g, of "''a''" "''b''"] g show ?thesis by simp
qed

section \<open>Properties of the archive extraction\<close>

lemmas regexp_eval = MatchString_def FindStringSubmatch_def plus_rests_def byte_def

text \<open>
  An archive that reads through to \<^verbatim>\<open>io.EOF\<close>, with matching entries whose size \<^verbatim>\<open>make\<close>
  can provide: the loop goes through every entry and collects the bytes of the matching
  ones in archive order.
\<close>

lemma untar_loop_archive:
  "list_all (allocatable w) (matching pattern entries) \<Longrightarrow>
   untar_loop w pattern entries EndOfArchive data matched
     = Returns (data @ concat (map entry_bytes (matching pattern entries)),
                matched \<or> matching pattern entries \<noteq> [])"
  by (induction entries arbitrary: data matched)
     (auto simp: matching_def make_bytes_def allocatable_def)

lemma untar_loop_broken:
  "untar_loop w pattern entries (HeaderError err) data matched = Panics"
  by (induction entries arbitrary: data matched) (auto split: outcome.splits)

lemma untar_loop_oversized:
  "hdr \<in> set (matching pattern entries) \<Longrightarrow> \<not> allocatable w hdr \<Longrightarrow>
   untar_loop w pattern entries ending data matched = Panics"
proof (induction entries arbitrary: data matched)
  case Nil
  then show ?case by (simp add: matching_def)
next
  case (Cons e es)
  show ?case
  proof (cases "hdr = e")
    case True
    with Cons.prems show ?thesis
      by (auto simp: matching_def make_bytes_def allocatable_def)
  next
    case False
    with Cons.prems have "hdr \<in> set (matching pattern es)"
      by (auto simp: matching_def split: if_splits)
    from Cons.IH[OF this Cons.prems(2)] show ?thesis by (simp split: outcome.splits)
  qed
qed

lemma remoteUntar_complete:
  assumes "http_Get w uri = Inr resp" and "gzip_tar resp = Inr (TarStream entries EndOfArchive)"
    and "list_all (allocatable w) (matching pattern entries)"
  shows "remoteUntar w uri pattern =
        ([uri], Returns (if matching pattern entries = [] then Inl (NoFileMatchedPattern pattern)
                         else Inr (concat (map entry_bytes (matching pattern entries)))))"
  using assms by (simp add: remoteUntar_def untar_loop_archive)

lemma remoteUntar_sample:
  "remoteUntar sample_world ''https://pypi.python.org/packages/source/a/alpha/alpha-1.0.tar.gz''
     requires_pattern
   = ([''https://pypi.python.org/packages/source/a/alpha/alpha-1.0.tar.gz''],
      Returns (Inr ''beta>=1.0\<newline>gamma\<newline>''))"
proof -
  let ?resp = "\<lparr>gzip_tar = Inr (TarStream sample_archive EndOfArchive),
                            read_all = Inr [], ContentLength = - 1\<rparr>"
  have m: "matching requires_pattern sample_archive
     = [TarEntry ''alpha-1.0/alpha.egg-info/requires.txt'' 10 ''beta>=1.0\<newline>'',
        TarEntry ''alpha-1.0/src/alpha.egg-info/requires.txt'' 6 ''gamma\<newline>'']"
    by (simp add: matching_def sample_archive_def requires_pattern_def regexp_eval)
  have g: "http_Get sample_world ''https://pypi.python.org/packages/source/a/alpha/alpha-1.0.tar.gz'' = Inr ?resp"
    by (simp add: sample_world_def)
  have a: "list_all (allocatable sample_world) (matching requires_pattern sample_archive)"
    unfolding m by (simp add: allocatable_def sample_world_def)
  from remoteUntar_complete[OF g _ a] m show ?thesis by simp
qed

text \<open>
  Claim C6 fails on the code. The archive of the first download is complete and holds two
  entries that match the pattern, the second a sparse file whose header gives a size
  beyond what \<^verbatim>\<open>make\<close> provides: \<^verbatim>\<open>make([]byte, 0, hdr.Size)\<close> panics, and the call returns
  neither the bytes of the matching entries nor an error. The second download breaks off
  after its matching entry, which was read in full: the next \<^verbatim>\<open>tr.Next()\<close> returns a nil
  header and an error that is not \<^verbatim>\<open>io.EOF\<close>, \<^verbatim>\<open>hdr.Name\<close> panics, and again the call
  returns neither the bytes nor an error.
\<close>

theorem remoteUntar_matching_lost:
  "matching pkg_info_pattern sparse_archive = sparse_archive \<and>
   remoteUntar sparse_world ''https://pypi.python.org/packages/source/a/alpha/alpha-1.0.tar.gz''
     pkg_info_pattern
   = ([''https://pypi.python.org/packages/source/a/alpha/alpha-1.0.tar.gz''], Panics) \<and>
   matches pkg_info_pattern ''alpha-1.0/PKG-INFO'' \<and>
   remoteUntar truncated_world ''https://pypi.python.org/packages/source/a/alpha/alpha-1.0.tar.gz''
     pkg_info_pattern
   = ([''https://pypi.python.org/packages/source/a/alpha/alpha-1.0.tar.gz''], Panics)"
proof -
  have m: "matches pkg_info_pattern ''alpha-1.0/PKG-INFO''"
    "matches pkg_info_pattern ''alpha-1.0/tests/image/PKG-INFO''"
    by (simp_all add: pkg_info_pattern_def regexp_eval)
  then have a: "matching pkg_info_pattern sparse_archive = sparse_archive"
    by (simp add: matching_def sparse_archive_def)
  have "\<not> allocatable sparse_world
      (TarEntry ''alpha-1.0/tests/image/PKG-INFO'' (2 ^ 62) (replicate (2 ^ 62) (CHR 0x00)))"
    by (simp add: allocatable_def sparse_world_def)
  moreover have "TarEntry ''alpha-1.0/tests/image/PKG-INFO'' (2 ^ 62) (replicate (2 ^ 62) (CHR 0x00))
      \<in> set (matching pkg_info_pattern sparse_archive)"
    unfolding a by (simp only: sparse_archive_def list.set insert_iff simp_thms)
  ultimately have "untar_loop sparse_world pkg_info_pattern sparse_archive EndOfArchive [] False = Panics"
    by (rule untar_loop_oversized[rotated])
  then have b: "remoteUntar sparse_world
      ''https://pypi.python.org/packages/source/a/alpha/alpha-1.0.tar.gz'' pkg_info_pattern
   = ([''https://pypi.python.org/packages/source/a/alpha/alpha-1.0.tar.gz''], Panics)"
    by (simp add: remoteUntar_def sparse_world_def)
  have c: "remoteUntar truncated_world
      ''https://pypi.python.org/packages/source/a/alpha/alpha-1.0.tar.gz'' pkg_info_pattern
   = ([''https://pypi.python.org/packages/source/a/alpha/alpha-1.0.tar.gz''], Panics)"
    by (simp add: remoteUntar_def truncated_world_def untar_loop_broken del: untar_loop.simps)
  from a b m(1) c show ?thesis by blast
qed

text \<open>
  Claim C9 fails on the code. When \<^verbatim>\<open>tr.Next()\<close> reports an error that is not \<^verbatim>\<open>io.EOF\<close>,
  the loop goes on to read \<^verbatim>\<open>hdr.Name\<close> of the nil header: the call panics and returns
  neither bytes nor an error. Here the archive breaks off after its first entry.
\<close>

theorem remoteUntar_panics:
  "remoteUntar broken_world ''https://pypi.python.org/packages/source/p/pkg/pkg-1.0.tar.gz''
     pkg_info_pattern
   = ([''https://pypi.python.org/packages/source/p/pkg/pkg-1.0.tar.gz''], Panics)"
  by (simp add: remoteUntar_def broken_world_def untar_loop_broken del: untar_loop.simps)

text \<open>
  Claim C10. For a compression kind other than \<^verbatim>\<open>"zip"\<close> and \<^verbatim>\<open>"tar"\<close>,
  \<^verbatim>\<open>RemoteDecompress\<close> returns the "Unrecognized compression type" error, whatever the URI,
  the pattern and the world are, and requests nothing.
\<close>

theorem RemoteDecompress_unrecognized:
  "compressType \<noteq> ''zip'' \<Longrightarrow> compressType \<noteq> ''tar'' \<Longrightarrow>
   RemoteDecompress w uri pattern compressType
     = ([], Returns (Inl (UnrecognizedCompressionType compressType)))"
  by (simp add: RemoteDecompress_def Zip_def Tar_def)

theorem RemoteDecompress_unrecognized_witness:
  "RemoteDecompress sample_world ''https://pypi.python.org/x.tar.bz2'' pkg_info_pattern ''bz2''
     = ([], Returns (Inl (UnrecognizedCompressionType ''bz2'')))"
  using RemoteDecompress_unrecognized[of "''bz2''" sample_world
      "''https://pypi.python.org/x.tar.bz2''" pkg_info_pattern]
  by simp

section \<open>Properties of the crawler\<close>

subsection \<open>The source artifact\<close>

lemma path_cls_byte:
  "cls_byte path_cls b = in_ranges [(CHR ''/'', CHR ''/''), (CHR ''A'', CHR ''Z''), (CHR ''a'', CHR ''z''),
        (CHR ''0'', CHR ''9''), (CHR ''.'', CHR ''.''), (CHR ''_'', CHR ''_''),
        (CHR ''-'', CHR ''-'')] b"
  unfolding path_cls_def by (rule cls_byte_ranges) (simp add: byte_def)

lemma tarRegexp_positive: "positive_rx tarRegexp"
  by (simp add: tarRegexp_def path_cls_def)

lemma tarRegexp_lang:
  "lang tarRegexp = {w @ ''.tar.gz'' | w. w \<noteq> [] \<and> list_all (cls_byte path_cls) w}"
  by (auto simp: tarRegexp_def)

lemma MatchString_tarRegexp: "MatchString tarRegexp p = tar_path p"
proof
  assume "MatchString tarRegexp p"
  then have "search tarRegexp [[]] p \<noteq> []"
    by (simp add: MatchString_def FindStringSubmatch_def tarRegexp_def)
  from search_found[OF this] obtain pre u rest c xs where
    p: "p = pre @ u" and m: "rmatch tarRegexp u [[]] = (rest, c) # xs" by blast
  from m have "rest \<in> fst ` set (rmatch tarRegexp u [[]])" by force
  then have "rest \<in> {rest. \<exists>w \<in> lang tarRegexp. u = w @ rest}"
    by (simp only: rmatch_lang[OF tarRegexp_positive])
  then obtain w where w: "w \<noteq> []" "list_all (cls_byte path_cls) w" "u = (w @ ''.tar.gz'') @ rest"
    by (auto simp: tarRegexp_lang)
  from w(1) have bl: "w = butlast w @ [last w]" by simp
  from w(1) w(2) have "cls_byte path_cls (last w)"
    by (auto simp: list_all_iff)
  moreover from p w(3) bl have "p = (pre @ butlast w) @ last w # ''.tar.gz'' @ rest"
    by (metis append.assoc append_Cons append_Nil)
  ultimately show "tar_path p" unfolding tar_path_def path_cls_byte by blast
next
  assume "tar_path p"
  then obtain pre b post where p: "p = pre @ b # ''.tar.gz'' @ post"
    and b: "cls_byte path_cls b" unfolding tar_path_def path_cls_byte by blast
  let ?u = "b # ''.tar.gz'' @ post"
  have "[b] @ ''.tar.gz'' \<in> lang tarRegexp" using b by (simp add: tarRegexp_lang)
  then have "post \<in> {rest. \<exists>w \<in> lang tarRegexp. ?u = w @ rest}" by force
  then have "post \<in> fst ` set (rmatch tarRegexp ?u [[]])"
    by (simp only: rmatch_lang[OF tarRegexp_positive])
  then have ne: "rmatch tarRegexp ?u [[]] \<noteq> []" by auto
  have ascii: "byte (hd ?u) < 0x80" using b by (simp add: path_cls_def)
  have "search tarRegexp [[]] (pre @ ?u) \<noteq> []"
  proof
    assume "search tarRegexp [[]] (pre @ ?u) = []"
    from search_none[OF this] ascii have "rmatch tarRegexp ?u [[]] = []" by simp
    with ne show False by simp
  qed
  with p show "MatchString tarRegexp p"
    by (simp add: MatchString_def FindStringSubmatch_def tarRegexp_def)
qed

lemma lastTar_from_none:
  "n \<le> length files \<Longrightarrow> (\<And>i. i < n \<Longrightarrow> \<not> tar_path (files ! i)) \<Longrightarrow> lastTar_from files n = []"
  by (induction n) (auto simp: MatchString_tarRegexp)

lemma lastTar_from_last:
  "n \<le> length files \<Longrightarrow> i < n \<Longrightarrow> tar_path (files ! i) \<Longrightarrow>
   (\<And>j. i < j \<Longrightarrow> j < n \<Longrightarrow> \<not> tar_path (files ! j)) \<Longrightarrow> lastTar_from files n = files ! i"
proof (induction n)
  case 0
  then show ?case by simp
next
  case (Suc n)
  show ?case
  proof (cases "i = n")
    case True
    with Suc.prems show ?thesis by (simp add: MatchString_tarRegexp)
  next
    case False
    with Suc.prems have "i < n" by simp
    moreover from this Suc.prems have "\<not> tar_path (files ! n)" by simp
    ultimately show ?thesis using Suc by (simp add: MatchString_tarRegexp)
  qed
qed

lemmas tar_eval = lastTar_def MatchString_def FindStringSubmatch_def tarRegexp_def path_cls_def
  plus_rests_def byte_def

text \<open>
  Claim C7, as the code has it. \<^verbatim>\<open>tarRegexp.MatchString\<close> is not anchored: it accepts a
  path that contains, anywhere, a character of \<^verbatim>\<open>[/A-Za-z0-9\._-]\<close> followed by
  \<^verbatim>\<open>.tar.gz\<close>. \<^verbatim>\<open>lastTar\<close> returns the last path of the list that does, and the empty
  string when none does; the two examples of the claim hold.
\<close>

theorem lastTar_last_match:
  "((\<forall>p \<in> set files. \<not> tar_path p) \<longrightarrow> lastTar files = []) \<and>
   (tar_path p \<and> (\<forall>q \<in> set later. \<not> tar_path q) \<longrightarrow> lastTar (earlier @ p # later) = p) \<and>
   lastTar [''pkg-1.0.zip'', ''pkg-1.0.tar.gz'', ''pkg-1.1.tar.gz''] = ''pkg-1.1.tar.gz'' \<and>
   lastTar [''pkg-1.0.zip''] = []"
proof -
  have a: "(\<forall>p \<in> set files. \<not> tar_path p) \<longrightarrow> lastTar files = []"
    unfolding lastTar_def by (auto intro!: lastTar_from_none)
  have b: "tar_path p \<and> (\<forall>q \<in> set later. \<not> tar_path q) \<longrightarrow> lastTar (earlier @ p # later) = p"
    for p later earlier
  proof
    assume h: "tar_path p \<and> (\<forall>q \<in> set later. \<not> tar_path q)"
    let ?files = "earlier @ p # later"
    have "lastTar_from ?files (length ?files) = ?files ! length earlier"
    proof (rule lastTar_from_last)
      show "length ?files \<le> length ?files" by simp
      show "length earlier < length ?files" by simp
      show "tar_path (?files ! length earlier)" using h by simp
    next
      fix j
      assume j: "length earlier < j" "j < length ?files"
      then have "?files ! j = later ! (j - Suc (length earlier))"
        by (simp add: nth_append nth_Cons')
      moreover from j have "j - Suc (length earlier) < length later" by simp
      ultimately show "\<not> tar_path (?files ! j)" using h by simp
    qed
    then show "lastTar ?files = p" by (simp add: lastTar_def)
  qed
  have "tar_path ''pkg-1.1.tar.gz''"
    unfolding MatchString_tarRegexp[symmetric] by (simp add: tar_eval)
  with b[of "''pkg-1.1.tar.gz''" "[]" "[''pkg-1.0.zip'', ''pkg-1.0.tar.gz'']"]
  have c: "lastTar [''pkg-1.0.zip'', ''pkg-1.0.tar.gz'', ''pkg-1.1.tar.gz''] = ''pkg-1.1.tar.gz''"
    by simp
  have d: "lastTar [''pkg-1.0.zip''] = []"
    by (simp add: tar_eval)
  from a b c d show ?thesis by blast
qed

theorem lastTar_last_match_witness:
  "lastTar ([''a.zip'', ''a.tar.gz''] @ ''b.tar.gz'' # [''b.zip'']) = ''b.tar.gz'' \<and>
   lastTar [''a.zip'', ''a.egg''] = []"
proof -
  have 1: "tar_path ''b.tar.gz''"
    unfolding MatchString_tarRegexp[symmetric] by (simp add: tar_eval)
  have 2: "\<not> tar_path ''b.zip''" "\<not> tar_path ''a.zip''" "\<not> tar_path ''a.egg''"
    unfolding MatchString_tarRegexp[symmetric] by (simp_all add: tar_eval)
  from lastTar_last_match[of "[''a.zip'', ''a.egg'']" "''b.tar.gz''" "[''b.zip'']"
      "[''a.zip'', ''a.tar.gz'']"] 1 2
  show ?thesis by simp
qed

text \<open>
  Claim C7 as stated fails: the last path that ends in \<^verbatim>\<open>.tar.gz\<close> is the first of this
  list, and \<^verbatim>\<open>lastTar\<close> returns the second, which only contains \<^verbatim>\<open>.tar.gz\<close>.
\<close>

theorem lastTar_suffix_counterexample:
  "lastTar [''pkg-1.0.tar.gz'', ''pkg-1.0.tar.gz.asc''] = ''pkg-1.0.tar.gz.asc'' \<and>
   suffix ''.tar.gz'' ''pkg-1.0.tar.gz'' \<and> \<not> suffix ''.tar.gz'' ''pkg-1.0.tar.gz.asc''"
  by (simp add: tar_eval suffix_to_prefix)

subsection \<open>Requirement lines: the preferred match\<close>

lemma name_cls_byte: "cls_byte name_cls b = name_char b"
  unfolding name_cls_def name_char_def by (rule cls_byte_ranges) (simp add: byte_def)

lemma version_cls_byte: "cls_byte version_cls b = version_char b"
  unfolding version_cls_def version_char_def by (rule cls_byte_ranges) (simp add: byte_def)

lemma space_cls_byte: "cls_byte space_cls b = ws_char b"
  unfolding space_cls_def ws_char_def by (rule cls_byte_ranges) (simp add: byte_def)

lemma requirement_classes_positive:
  "positive name_cls" "positive version_cls" "positive space_cls"
  by (simp_all add: name_cls_def version_cls_def space_cls_def)

lemma name_char_bounds: "name_char b \<Longrightarrow> 45 \<le> byte b \<and> byte b \<le> 122 \<and> byte b \<noteq> 47 \<and>
   byte b \<noteq> 61 \<and> byte b \<noteq> 62 \<and> byte b \<noteq> 91 \<and> byte b \<noteq> 93"
  by (auto simp: name_char_def byte_def)

lemma version_char_bounds: "version_char b \<Longrightarrow> 46 \<le> byte b \<and> byte b \<le> 57 \<and> byte b \<noteq> 47"
  by (auto simp: version_char_def byte_def)

lemma ws_char_bounds: "ws_char b \<Longrightarrow> byte b \<le> 32"
  by (auto simp: ws_char_def byte_def)

lemma literal_bytes:
  "byte CHR ''['' = 91" "byte CHR '']'' = 93" "byte CHR ''='' = 61" "byte CHR ''>'' = 62"
  "byte CHR 0x09 = 9" "byte CHR 0x0A = 10" "byte CHR 0x0B = 11" "byte CHR 0x0C = 12"
  "byte CHR 0x0D = 13" "byte CHR 0x20 = 32"
  by (simp_all add: byte_def)

lemma plain_iff: "plain b = (byte b < 0x80 \<and> byte b \<notin> {9, 10, 11, 12, 13, 32})"
proof -
  have "b = c \<longleftrightarrow> byte b = byte c" for c by (simp add: byte_eq_iff)
  then show ?thesis unfolding plain_def by (simp add: literal_bytes)
qed

lemma name_char_plain: "name_char b \<Longrightarrow> plain b"
  by (drule name_char_bounds) (auto simp: plain_iff)

lemma version_char_plain: "version_char b \<Longrightarrow> plain b"
  by (drule version_char_bounds) (auto simp: plain_iff)

lemma bracket_plain: "plain CHR '']''"
  by (simp add: plain_iff literal_bytes)

lemma not_name_char:
  "ws_char b \<Longrightarrow> \<not> name_char b" "\<not> name_char CHR ''[''" "\<not> name_char CHR '']''"
  "\<not> name_char CHR ''=''" "\<not> name_char CHR ''>''"
  by (auto dest!: name_char_bounds ws_char_bounds simp: literal_bytes)

lemma not_ws_char:
  "version_char b \<Longrightarrow> \<not> ws_char b" "\<not> ws_char CHR ''=''" "\<not> ws_char CHR ''>''"
  "\<not> ws_char CHR ''[''"
  by (auto dest!: version_char_bounds ws_char_bounds simp: literal_bytes)

lemma not_equals_sign: "ws_char b \<Longrightarrow> b \<noteq> CHR ''=''" "version_char b \<Longrightarrow> b \<noteq> CHR ''=''"
  "ws_char b \<Longrightarrow> b \<noteq> CHR ''[''" 
  by (auto dest!: version_char_bounds ws_char_bounds simp: literal_bytes)

lemma prefers_name:
  assumes "name \<noteq> []" and "list_all name_char name" and "rest = [] \<or> \<not> name_char (hd rest)"
  shows "prefers (Group i (Plus name_cls)) (name @ rest) c (rest, c[i := name])"
proof -
  have "prefers (Plus name_cls) (name @ rest) c (rest, c)"
    using assms by (intro prefers_Plus) (simp_all add: requirement_classes_positive name_cls_byte[abs_def])
  from prefers_Group[OF this, of i] show ?thesis by simp
qed

lemma prefers_version:
  assumes "version \<noteq> []" and "list_all version_char version"
  shows "prefers (Group i (Plus version_cls)) version c ([], c[i := version])"
proof -
  have "prefers (Plus version_cls) (version @ []) c ([], c)"
    using assms by (intro prefers_Plus) (simp_all add: requirement_classes_positive version_cls_byte[abs_def])
  from prefers_Group[OF this, of i] show ?thesis by simp
qed

lemma prefers_ws:
  assumes "list_all ws_char ws" and "rest = [] \<or> \<not> ws_char (hd rest)"
  shows "prefers (Star space_cls) (ws @ rest) c (rest, c)"
  using assms by (intro prefers_Star) (simp_all add: requirement_classes_positive space_cls_byte[abs_def])

lemma requirementRegexp_parts:
  "requirementRegexp = cat [Group 1 (Plus name_cls), extra_rx, Star space_cls, constraint_rx]"
  by (simp add: requirementRegexp_def extra_rx_def operator_rx_def constraint_rx_def)

lemma prefers_extra_some:
  assumes "extra \<noteq> []" and "list_all name_char extra"
  shows "prefers extra_rx (''['' @ extra @ '']'' @ rest) c (rest, c[2 := extra])"
proof -
  have 1: "prefers (Lit ''['') (''['' @ extra @ '']'' @ rest) c (extra @ '']'' @ rest, c)"
    by (rule prefers_Lit)
  have 2: "prefers (Group 2 (Plus name_cls)) (extra @ '']'' @ rest) c ('']'' @ rest, c[2 := extra])"
    using assms by (intro prefers_name) (simp_all add: not_name_char)
  have 3: "prefers (Lit '']'') ('']'' @ rest) (c[2 := extra]) (rest, c[2 := extra])"
    by (rule prefers_Lit)
  from prefers_Seq[OF 1 prefers_Seq[OF 2 3]] show ?thesis
    unfolding extra_rx_def by (auto intro: prefers_Opt)
qed

lemma prefers_extra_none:
  assumes "rest = [] \<or> hd rest \<noteq> CHR ''[''"
  shows "prefers extra_rx rest c (rest, c)"
proof -
  have "\<not> prefix ''['' rest" using assms by (cases rest) auto
  then show ?thesis unfolding extra_rx_def by (intro prefers_Opt_skip) simp
qed

lemma prefers_operator:
  assumes "operator \<in> {''=='', ''>='', ''>''}" and "rest = [] \<or> hd rest \<noteq> CHR ''=''"
  shows "prefers operator_rx (operator @ rest) c (rest, c[3 := operator])"
proof -
  have "prefers (Alt (Lit ''=='') (Alt (Lit ''>='') (Lit ''>''))) (operator @ rest) c (rest, c)"
  proof -
    consider "operator = ''==''" | "operator = ''>=''" | "operator = ''>''" using assms(1) by auto
    then show ?thesis
    proof cases
      case 1
      with prefers_Alt1[OF prefers_Lit[of "''==''" rest c]] show ?thesis by simp
    next
      case 2
      have a: "rmatch (Lit ''=='') (''>='' @ rest) c = []" by simp
      from prefers_Alt2[OF a prefers_Alt1[OF prefers_Lit[of "''>=''" rest c]]] 2
      show ?thesis by simp
    next
      case 3
      have a: "rmatch (Lit ''=='') (''>'' @ rest) c = []" by simp
      have b: "rmatch (Lit ''>='') (''>'' @ rest) c = []" using assms(2) by (cases rest) auto
      from prefers_Alt2[OF a prefers_Alt2[OF b prefers_Lit[of "''>''" rest c]]] 3
      show ?thesis by simp
    qed
  qed
  from prefers_Group[OF this, of 3] show ?thesis unfolding operator_rx_def by simp
qed

lemma prefers_constraint_some:
  assumes "grammatical_constraint (Some (ws1, operator, ws2, version))"
  shows "prefers constraint_rx (operator @ ws2 @ version) c ([], c[3 := operator, 4 := version])"
proof -
  from assms have v: "version \<noteq> []" "list_all version_char version" and w: "list_all ws_char ws2"
    and o: "operator \<in> {''=='', ''>='', ''>''}" by simp_all
  from v have hv: "version_char (hd version)" by (cases version) auto
  have h: "ws2 @ version = [] \<or> hd (ws2 @ version) \<noteq> CHR ''=''"
    using w hv v(1) by (cases ws2) (auto simp: not_equals_sign)
  have 1: "prefers operator_rx (operator @ ws2 @ version) c (ws2 @ version, c[3 := operator])"
    using o h by (rule prefers_operator)
  have 2: "prefers (Star space_cls) (ws2 @ version) (c[3 := operator]) (version, c[3 := operator])"
    using w hv by (intro prefers_ws) (simp_all add: not_ws_char)
  have 3: "prefers (Group 4 (Plus version_cls)) version (c[3 := operator])
     ([], c[3 := operator, 4 := version])"
    using v by (rule prefers_version)
  from prefers_Seq[OF 1 prefers_Seq[OF 2 3]] show ?thesis
    unfolding constraint_rx_def by (auto intro: prefers_Opt)
qed

lemma prefers_constraint_none: "prefers constraint_rx [] c ([], c)"
  unfolding constraint_rx_def operator_rx_def by (intro prefers_Opt_skip) simp

lemma constraint_text_head:
  assumes "grammatical_constraint constraint"
  shows "constraint_text constraint = [] \<or>
     (\<not> name_char (hd (constraint_text constraint)) \<and> hd (constraint_text constraint) \<noteq> CHR ''['')"
proof (cases constraint)
  case None
  then show ?thesis by simp
next
  case (Some q)
  obtain ws1 operator ws2 version where q: "q = (ws1, operator, ws2, version)" by (cases q)
  with Some assms have o: "operator \<in> {''=='', ''>='', ''>''}" and w: "list_all ws_char ws1"
    by simp_all
  show ?thesis
  proof (cases ws1)
    case Nil
    with o Some q show ?thesis by (auto simp: not_name_char)
  next
    case (Cons b ws)
    with w have "ws_char b" by simp
    with Cons Some q show ?thesis by (auto simp: not_name_char not_equals_sign)
  qed
qed

lemma requirement_prefers:
  assumes "grammatical name extra constraint"
  shows "prefers requirementRegexp (requirement_line name extra constraint) [[], [], [], [], []]
     ([], [[], name, (case extra of None \<Rightarrow> [] | Some e \<Rightarrow> e), operator_of constraint,
           version_of constraint])"
proof -
  let ?c0 = "[[], [], [], [], []] :: string list"
  let ?E = "extra_text extra" and ?C = "constraint_text constraint"
  let ?c2 = "[[], name, (case extra of None \<Rightarrow> [] | Some e \<Rightarrow> e), [], []]"
  from assms have n: "name \<noteq> []" "list_all name_char name" and ge: "grammatical_extra extra"
    and gc: "grammatical_constraint constraint" by (simp_all add: grammatical_def)
  note hC = constraint_text_head[OF gc]
  have hEC: "?E @ ?C = [] \<or> \<not> name_char (hd (?E @ ?C))"
    using hC by (cases extra) (auto simp: not_name_char)
  have 1: "prefers (Group 1 (Plus name_cls)) (name @ ?E @ ?C) ?c0 (?E @ ?C, ?c0[1 := name])"
    using n hEC by (rule prefers_name)
  have 2: "prefers extra_rx (?E @ ?C) (?c0[1 := name]) (?C, ?c2)"
  proof (cases extra)
    case None
    with prefers_extra_none[of ?C "?c0[1 := name]"] hC show ?thesis by auto
  next
    case (Some e)
    with ge have "e \<noteq> []" "list_all name_char e" by simp_all
    from prefers_extra_some[OF this, of ?C "?c0[1 := name]"] Some show ?thesis by simp
  qed
  have 3: "prefers (Seq (Star space_cls) constraint_rx) ?C ?c2
     ([], [[], name, (case extra of None \<Rightarrow> [] | Some e \<Rightarrow> e), operator_of constraint,
           version_of constraint])"
  proof (cases constraint)
    case None
    have "prefers (Star space_cls) ([] @ []) ?c2 ([], ?c2)"
      by (rule prefers_ws) simp_all
    with prefers_constraint_none[of ?c2] None show ?thesis
      by (auto intro: prefers_Seq)
  next
    case (Some q)
    obtain ws1 operator ws2 version where q: "q = (ws1, operator, ws2, version)" by (cases q)
    with Some gc have g: "grammatical_constraint (Some (ws1, operator, ws2, version))" by simp
    then have o: "operator \<in> {''=='', ''>='', ''>''}" and w: "list_all ws_char ws1" by simp_all
    from o have "\<not> ws_char (hd (operator @ ws2 @ version))" by (auto simp: not_ws_char)
    with w have a: "prefers (Star space_cls) (ws1 @ operator @ ws2 @ version) ?c2
       (operator @ ws2 @ version, ?c2)"
      by (intro prefers_ws) simp_all
    from prefers_Seq[OF a prefers_constraint_some[OF g, of ?c2]] Some q show ?thesis by simp
  qed
  from prefers_Seq[OF 1 prefers_Seq[OF 2 3]] show ?thesis
    by (simp add: requirementRegexp_parts requirement_line_def)
qed

lemma requirement_caps:
  "replicate (Suc (NumSubexp requirementRegexp)) [] = [[], [], [], [], []]"
  by (simp add: requirementRegexp_def)

lemma FindStringSubmatch_requirement:
  assumes "grammatical name extra constraint"
  shows "FindStringSubmatch requirementRegexp (requirement_line name extra constraint)
     = [requirement_line name extra constraint, name, (case extra of None \<Rightarrow> [] | Some e \<Rightarrow> e),
        operator_of constraint, version_of constraint]"
  using search_prefers[OF requirement_prefers[OF assms]]
  unfolding FindStringSubmatch_def requirement_caps by simp

lemma requirement_line_plain:
  assumes "grammatical name extra constraint"
  shows "requirement_line name extra constraint \<noteq> []"
    and "plain (hd (requirement_line name extra constraint))"
    and "plain (last (requirement_line name extra constraint))"
proof -
  let ?L = "requirement_line name extra constraint"
  from assms have n: "name \<noteq> []" "list_all name_char name" and ge: "grammatical_extra extra"
    and gc: "grammatical_constraint constraint" by (simp_all add: grammatical_def)
  show "?L \<noteq> []" using n by (simp add: requirement_line_def)
  from n have "name_char (hd name)" by (cases name) auto
  then show "plain (hd ?L)" using n by (simp add: requirement_line_def name_char_plain)
  show "plain (last ?L)"
  proof (cases constraint)
    case (Some q)
    obtain ws1 operator ws2 version where q: "q = (ws1, operator, ws2, version)" by (cases q)
    with Some gc have v: "version \<noteq> []" "list_all version_char version" by simp_all
    then have "version_char (last version)" by (auto simp: list_all_iff)
    with v Some q show ?thesis by (simp add: requirement_line_def version_char_plain)
  next
    case None
    show ?thesis
    proof (cases extra)
      case (Some e)
      with None show ?thesis by (simp add: requirement_line_def bracket_plain)
    next
      case n2: None
      from n have "name_char (last name)" by (auto simp: list_all_iff)
      with None n2 show ?thesis by (simp add: requirement_line_def name_char_plain)
    qed
  qed
qed

lemma TrimSpace_requirement_line:
  assumes "grammatical name extra constraint"
  shows "TrimSpace (requirement_line name extra constraint) = requirement_line name extra constraint"
  using requirement_line_plain[OF assms] by (rule TrimSpace_plain)

lemma parse_trimmed:
  assumes "TrimSpace reqStr = requirement_line name extra constraint"
    and "grammatical name extra constraint"
  shows "parseRequirement reqStr
     = Inr \<lparr>Name = name, Constraint = operator_of constraint, Version = version_of constraint\<rparr>"
  using assms(1) FindStringSubmatch_requirement[OF assms(2)]
  by (simp add: parseRequirement_def)

lemma render_parsed:
  "render \<lparr>Name = name, Constraint = operator_of constraint, Version = version_of constraint\<rparr>
     = requirement_line name None (tight constraint)"
  by (cases constraint) (auto simp: render_def requirement_line_def)

lemmas requirement_eval = parseRequirement_def TrimSpace_def TrimLeft_def TrimRight_def
  unicode_spaces_def FindStringSubmatch_def requirementRegexp_def name_cls_def space_cls_def
  version_cls_def plus_rests_def byte_def

text \<open>
  Claim C3, as the code has it. For every line of the grammar, \<^verbatim>\<open>parseRequirement\<close>
  returns the structure that holds the name, the operator and the version of the line
  (empty strings for a line without a constraint), and rendering that structure gives the
  line again without its extra component and without the white space around the
  operator. \<^verbatim>\<open>Requirement\<close> has no field for the extra component: the pattern reads it
  as group 2 and the result leaves it out.
\<close>

theorem parseRequirement_round_trip:
  assumes "grammatical name extra constraint"
  shows "parseRequirement (requirement_line name extra constraint)
           = Inr \<lparr>Name = name, Constraint = operator_of constraint,
                   Version = version_of constraint\<rparr> \<and>
         render \<lparr>Name = name, Constraint = operator_of constraint,
                 Version = version_of constraint\<rparr>
           = requirement_line name None (tight constraint)"
  using parse_trimmed[OF TrimSpace_requirement_line[OF assms] assms] render_parsed by simp

theorem parseRequirement_round_trip_witness:
  "parseRequirement ''Foo_bar[extra-1] >=  1.0.2''
     = Inr \<lparr>Name = ''Foo_bar'', Constraint = ''>='', Version = ''1.0.2''\<rparr> \<and>
   render \<lparr>Name = ''Foo_bar'', Constraint = ''>='', Version = ''1.0.2''\<rparr> = ''Foo_bar>=1.0.2''"
proof -
  have g: "grammatical ''Foo_bar'' (Some ''extra-1'') (Some ('' '', ''>='', ''  '', ''1.0.2''))"
    by (simp add: grammatical_def name_char_def ws_char_def version_char_def byte_def)
  from parseRequirement_round_trip[OF g] show ?thesis
    by (simp add: requirement_line_def)
qed

text \<open>
  Claim C3 as stated fails: a line with an extra component and the same line without it
  have the same parse result, so the extra component is not preserved and rendering the
  result cannot give it back.
\<close>

theorem parseRequirement_extra_counterexample:
  "parseRequirement ''foo[bar]==1.0''
     = Inr \<lparr>Name = ''foo'', Constraint = ''=='', Version = ''1.0''\<rparr> \<and>
   parseRequirement ''foo==1.0''
     = Inr \<lparr>Name = ''foo'', Constraint = ''=='', Version = ''1.0''\<rparr>"
  by (simp add: requirement_eval)

subsection \<open>Requirement lines: only whole lines parse\<close>

lemma requirementRegexp_positive: "positive_rx requirementRegexp"
  by (simp add: requirementRegexp_def name_cls_def space_cls_def version_cls_def)

lemma requirement_cls_bytes:
  "cls_byte name_cls = name_char" "cls_byte version_cls = version_char"
  "cls_byte space_cls = ws_char"
  by (rule ext, rule name_cls_byte, rule ext, rule version_cls_byte, rule ext, rule space_cls_byte)

lemma lang_name: "lang (Plus name_cls) = {w. w \<noteq> [] \<and> list_all name_char w}"
  by (simp add: requirement_cls_bytes)

lemma lang_version: "lang (Plus version_cls) = {w. w \<noteq> [] \<and> list_all version_char w}"
  by (simp add: requirement_cls_bytes)

lemma lang_space: "lang (Star space_cls) = {w. list_all ws_char w}"
  by (simp add: requirement_cls_bytes)

lemma lang_extra:
  "e \<in> lang extra_rx \<Longrightarrow> \<exists>extra. grammatical_extra extra \<and> e = extra_text extra"
proof -
  assume "e \<in> lang extra_rx"
  then consider "e = []" | x where "x \<in> lang (Plus name_cls)" "e = ''['' @ x @ '']''"
    unfolding extra_rx_def by auto
  then show ?thesis
  proof cases
    case 1
    then have "grammatical_extra None \<and> e = extra_text None" by simp
    then show ?thesis by blast
  next
    case 2
    then have "grammatical_extra (Some x) \<and> e = extra_text (Some x)"
      by (simp add: requirement_cls_bytes)
    then show ?thesis by blast
  qed
qed

lemma lang_constraint:
  assumes "k \<in> lang constraint_rx" and "k \<noteq> []" and "list_all ws_char ws1"
  shows "\<exists>constraint. grammatical_constraint constraint \<and> ws1 @ k = constraint_text constraint"
proof -
  from assms(1,2) obtain operator ws2 version where
    "operator \<in> {''=='', ''>='', ''>''}" "ws2 \<in> lang (Star space_cls)"
    "version \<in> lang (Plus version_cls)" "k = operator @ ws2 @ version"
    unfolding constraint_rx_def operator_rx_def by auto
  with assms(3) have "grammatical_constraint (Some (ws1, operator, ws2, version)) \<and>
     ws1 @ k = constraint_text (Some (ws1, operator, ws2, version))"
    by (simp add: requirement_cls_bytes)
  then show ?thesis by blast
qed

lemma lang_requirement:
  assumes "t \<in> lang requirementRegexp" and "t = [] \<or> \<not> ws_char (last t)"
  shows "t \<in> requirement_grammar"
proof -
  from assms(1) obtain n e w k where t: "t = n @ e @ w @ k" and n: "n \<in> lang (Plus name_cls)"
    and e: "e \<in> lang extra_rx" and w: "w \<in> lang (Star space_cls)" and k: "k \<in> lang constraint_rx"
    unfolding requirementRegexp_parts by auto
  from n have gn: "n \<noteq> []" "list_all name_char n" by (simp_all add: requirement_cls_bytes)
  from lang_extra[OF e] obtain extra where ex: "grammatical_extra extra" "e = extra_text extra"
    by blast
  from w have gw: "list_all ws_char w" by (simp add: requirement_cls_bytes)
  have "\<exists>constraint. grammatical_constraint constraint \<and> w @ k = constraint_text constraint"
  proof (cases "k = []")
    case False
    from lang_constraint[OF k False gw] show ?thesis .
  next
    case True
    have "w = []"
    proof (rule ccontr)
      assume "w \<noteq> []"
      with True t have "last t = last w" by simp
      moreover from \<open>w \<noteq> []\<close> gw have "ws_char (last w)" by (auto simp: list_all_iff)
      moreover from t gn have "t \<noteq> []" by simp
      ultimately show False using assms(2) by simp
    qed
    with True have "grammatical_constraint None \<and> w @ k = constraint_text None" by simp
    then show ?thesis by blast
  qed
  then obtain constraint where c: "grammatical_constraint constraint"
    "w @ k = constraint_text constraint" by blast
  from t ex c have "t = requirement_line n extra constraint" by (simp add: requirement_line_def)
  moreover from gn ex c have "grammatical n extra constraint" by (simp add: grammatical_def)
  ultimately show ?thesis unfolding requirement_grammar_def by blast
qed

lemma full_match:
  assumes "length (FindStringSubmatch re t) = Suc (NumSubexp re)"
    and "FindStringSubmatch re t ! 0 = t" and "positive_rx re"
  shows "t \<in> lang re"
proof -
  let ?c0 = "replicate (Suc (NumSubexp re)) ([] :: string)"
  from assms(1) have "search re ?c0 t \<noteq> []" by (auto simp: FindStringSubmatch_def)
  from search_found[OF this] obtain pre u rest c xs where t: "t = pre @ u"
    and m: "rmatch re u ?c0 = (rest, c) # xs"
    and s: "search re ?c0 t = c[0 := take (length u - length rest) u]" by blast
  from rmatch_head_sound[OF m] have suf: "suffix rest u" and len: "length c = Suc (NumSubexp re)"
    by simp_all
  from s len assms(2) have "take (length u - length rest) u = t"
    by (simp add: FindStringSubmatch_def)
  then have eq: "length t = min (length u - length rest) (length u)"
    by (metis length_take min.commute)
  with t have "length pre + length u \<le> length u" by simp
  then have "pre = []" by simp
  with t have u: "u = t" by simp
  from suf obtain w where w: "u = w @ rest" by (auto simp: suffix_def)
  with u have "t = w @ rest" by simp
  then have "length t = length w + length rest" by (metis length_append)
  moreover from eq u have "length t \<le> length t - length rest" by simp
  ultimately have "length rest = 0" by arith
  then have "rest = []" by simp
  with m u have "([], c) \<in> set (rmatch re t ?c0)" by simp
  then have "[] \<in> fst ` set (rmatch re t ?c0)" by force
  then have "[] \<in> {rest. \<exists>w \<in> lang re. t = w @ rest}"
    by (simp only: rmatch_lang[OF assms(3)])
  then show ?thesis by simp
qed

lemma parseRequirement_success:
  assumes "parseRequirement reqStr = Inr r"
  shows "TrimSpace reqStr \<in> requirement_grammar"
proof -
  let ?t = "TrimSpace reqStr"
  from assms have "length (FindStringSubmatch requirementRegexp ?t) = 5"
    and "FindStringSubmatch requirementRegexp ?t ! 0 = ?t"
    by (auto simp: parseRequirement_def Let_def split: if_splits)
  moreover have "Suc (NumSubexp requirementRegexp) = 5" by (simp add: requirementRegexp_def)
  ultimately have "?t \<in> lang requirementRegexp"
    using full_match[of requirementRegexp ?t] requirementRegexp_positive by simp
  with TrimSpace_end[of reqStr] show ?thesis by (intro lang_requirement) auto
qed

lemma grammar_with_ws: "requirement_grammar_with (list_all ws_char) = requirement_grammar"
proof -
  have "grammatical_constraint_with (list_all ws_char) c = grammatical_constraint c" for c
    by (cases c) auto
  then show ?thesis
    by (simp add: requirement_grammar_with_def requirement_grammar_def grammatical_def)
qed

text \<open>
  Claim C4, as the code has it. \<^verbatim>\<open>parseRequirement\<close> succeeds exactly when the input is a
  line of the grammar with white space around it, where the white space around the line
  is white space in the wider sense of Unicode (what \<^verbatim>\<open>strings.TrimSpace\<close> removes) and
  the white space inside the line is what \<^verbatim>\<open>\s\<close> stands for in the pattern. The two
  malformed lines of the specification, of which only a prefix is a line of the grammar,
  give an error.
\<close>

theorem parseRequirement_whole_line:
  "((\<exists>r. parseRequirement reqStr = Inr r) =
      (\<exists>pre line post. reqStr = pre @ line @ post \<and> blank pre \<and> blank post \<and>
         line \<in> requirement_grammar)) \<and>
   parseRequirement ''foo >= '' = Inl (UnableToParseRequirement ''foo >='') \<and>
   parseRequirement ''foo==1.0==2.0'' = Inl (UnableToParseRequirement ''foo==1.0==2.0'')"
proof -
  have a: "(\<exists>r. parseRequirement reqStr = Inr r) =
      (\<exists>pre line post. reqStr = pre @ line @ post \<and> blank pre \<and> blank post \<and>
         line \<in> requirement_grammar)"
  proof
    assume "\<exists>r. parseRequirement reqStr = Inr r"
    then have "TrimSpace reqStr \<in> requirement_grammar" by (auto dest: parseRequirement_success)
    with TrimSpace_decomp[of reqStr]
    show "\<exists>pre line post. reqStr = pre @ line @ post \<and> blank pre \<and> blank post \<and>
         line \<in> requirement_grammar" by blast
  next
    assume "\<exists>pre line post. reqStr = pre @ line @ post \<and> blank pre \<and> blank post \<and>
         line \<in> requirement_grammar"
    then obtain pre line post name extra constraint
      where d: "reqStr = pre @ line @ post" "blank pre" "blank post"
        and l: "line = requirement_line name extra constraint"
        and g: "grammatical name extra constraint"
      unfolding requirement_grammar_def by blast
    from TrimSpace_surrounded[OF d(2,3)] requirement_line_plain[OF g] d(1) l
    have "TrimSpace reqStr = requirement_line name extra constraint" by simp
    from parse_trimmed[OF this g] show "\<exists>r. parseRequirement reqStr = Inr r" by blast
  qed
  have b: "parseRequirement ''foo >= '' = Inl (UnableToParseRequirement ''foo >='')"
    by (simp add: requirement_eval)
  have c: "parseRequirement ''foo==1.0==2.0'' = Inl (UnableToParseRequirement ''foo==1.0==2.0'')"
    by (simp add: requirement_eval)
  from a b c show ?thesis by blast
qed

theorem parseRequirement_whole_line_witness:
  "(\<exists>pre line post. [CHR 0x09, CHR 0xC2, CHR 0xA0] @ ''foo>1.0'' @ [CHR 0x20, CHR 0x0B]
        = pre @ line @ post \<and> blank pre \<and> blank post \<and> line \<in> requirement_grammar) \<and>
   \<not> (\<exists>pre line post. ''foo >= '' = pre @ line @ post \<and> blank pre \<and> blank post \<and>
        line \<in> requirement_grammar)"
proof -
  have 1: "parseRequirement ([CHR 0x09, CHR 0xC2, CHR 0xA0] @ ''foo>1.0'' @ [CHR 0x20, CHR 0x0B])
      = Inr \<lparr>Name = ''foo'', Constraint = ''>'', Version = ''1.0''\<rparr>"
    by (simp add: requirement_eval)
  from parseRequirement_whole_line[of "[CHR 0x09, CHR 0xC2, CHR 0xA0] @ ''foo>1.0'' @ [CHR 0x20, CHR 0x0B]"] 1
  have a: "\<exists>pre line post. [CHR 0x09, CHR 0xC2, CHR 0xA0] @ ''foo>1.0'' @ [CHR 0x20, CHR 0x0B]
        = pre @ line @ post \<and> blank pre \<and> blank post \<and> line \<in> requirement_grammar"
    by blast
  from parseRequirement_whole_line[of "''foo >= ''"]
  have "(\<exists>r. parseRequirement ''foo >= '' = Inr r) =
      (\<exists>pre line post. ''foo >= '' = pre @ line @ post \<and> blank pre \<and> blank post \<and>
         line \<in> requirement_grammar)"
    and "parseRequirement ''foo >= '' = Inl (UnableToParseRequirement ''foo >='')" by blast+
  then have b: "\<not> (\<exists>pre line post. ''foo >= '' = pre @ line @ post \<and> blank pre \<and> blank post \<and>
        line \<in> requirement_grammar)" by simp
  from a b show ?thesis by blast
qed

text \<open>
  Claim C4 as the specification states it fails, whichever of the two notions of white
  space is taken for both uses. A vertical tab is white space for \<^verbatim>\<open>strings.TrimSpace\<close>
  and not for \<^verbatim>\<open>\s\<close>. With the white space of \<^verbatim>\<open>\s\<close>, the input of a vertical tab and
  \<^verbatim>\<open>foo\<close> is not a line of the grammar with white space around it, and it is parsed.
  With the white space of Unicode, \<^verbatim>\<open>foo\<close>, a vertical tab and \<^verbatim>\<open>==1.0\<close> is a line of the
  grammar, and it is rejected.
\<close>

theorem parseRequirement_white_space_counterexample:
  "parseRequirement (CHR 0x0B # ''foo'') = Inr \<lparr>Name = ''foo'', Constraint = [], Version = []\<rparr> \<and>
   \<not> whole_line (list_all ws_char) (CHR 0x0B # ''foo'') \<and>
   parseRequirement (''foo'' @ CHR 0x0B # ''==1.0'')
     = Inl (UnableToParseRequirement (''foo'' @ CHR 0x0B # ''==1.0'')) \<and>
   whole_line blank (''foo'' @ CHR 0x0B # ''==1.0'')"
proof -
  have a: "parseRequirement (CHR 0x0B # ''foo'') = Inr \<lparr>Name = ''foo'', Constraint = [], Version = []\<rparr>"
    by (simp add: requirement_eval)
  have b: "\<not> whole_line (list_all ws_char) (CHR 0x0B # ''foo'')"
  proof
    assume "whole_line (list_all ws_char) (CHR 0x0B # ''foo'')"
    then obtain pre name rest where d: "CHR 0x0B # ''foo'' = pre @ name @ rest"
      and p: "list_all ws_char pre" and n: "name \<noteq> []" "list_all name_char name"
      unfolding whole_line_def requirement_grammar_with_def requirement_line_def by fastforce
    have v: "\<not> ws_char (CHR 0x0B)" "\<not> name_char (CHR 0x0B)"
      by (simp_all add: ws_char_def name_char_def byte_def)
    from d p v(1) have "pre = []" by (cases pre) auto
    with d n v(2) show False by (cases name) auto
  qed
  have c: "parseRequirement (''foo'' @ CHR 0x0B # ''==1.0'')
     = Inl (UnableToParseRequirement (''foo'' @ CHR 0x0B # ''==1.0''))"
    by (simp add: requirement_eval)
  have e: "blank []" "blank [CHR 0x0B]"
  proof -
    show "blank []" unfolding blank_def by (intro exI[of _ "[]"]) simp
    show "blank [CHR 0x0B]" unfolding blank_def
      by (intro exI[of _ "[0x0B]"]) (simp add: utf8_def White_Space_def char_of_def bit_0)
  qed
  have "''foo'' @ CHR 0x0B # ''==1.0''
      = requirement_line ''foo'' None (Some ([CHR 0x0B], ''=='', [], ''1.0''))"
    by (simp add: requirement_line_def)
  moreover have "list_all name_char ''foo''" "list_all version_char ''1.0''"
    by (simp_all add: name_char_def version_char_def byte_def)
  ultimately have "''foo'' @ CHR 0x0B # ''==1.0'' \<in> requirement_grammar_with blank"
    unfolding requirement_grammar_with_def using e
    by (intro CollectI exI[of _ "''foo''"] exI[of _ None]
        exI[of _ "Some ([CHR 0x0B], ''=='', [], ''1.0'')"]) simp
  with e(1) have d: "whole_line blank (''foo'' @ CHR 0x0B # ''==1.0'')"
    unfolding whole_line_def
    by (intro exI[of _ "[]"] exI[of _ "''foo'' @ CHR 0x0B # ''==1.0''"]) simp
  from a b c d show ?thesis by blast
qed

section \<open>Properties of the repository URI\<close>

subsection \<open>The patterns on a Home-page line\<close>




























subsection \<open>The function\<close>







lemma FetchSourceRepoURI_no_metadata:
  "FetchRawMetadata pkg ''**/PKG-INFO'' ''**/PKG-INFO'' ''**/PKG-INFO'' = Inl err \<Longrightarrow>
   FetchSourceRepoURI FetchRawMetadata NormalizedPkgName pkg = Inr []"
  by (simp add: FetchSourceRepoURI_def)

text \<open>
  Claim C2 fails on the code. When \<^verbatim>\<open>FetchRawMetadata\<close> fails, \<^verbatim>\<open>FetchSourceRepoURI\<close>
  executes \<^verbatim>\<open>return "", nil\<close>: the empty string and no error.
\<close>

theorem FetchSourceRepoURI_empty_success:
  "FetchSourceRepoURI metadata_unavailable as_is ''flask'' = Inr []"
  by (simp add: FetchSourceRepoURI_def metadata_unavailable_def)







end
